theory Spec2Isabelle
  imports Main "HOL-Library.Word"
begin

section \<open>Data model of the transaction load generator\<close>

text \<open>
  The development embeds \<^verbatim>\<open>cmd/tool/cmd/sendtx.go\<close>. Go's \<^verbatim>\<open>int\<close> is, on a 64-bit
  platform, a 64-bit two's-complement value, read through \<open>sint\<close>; \<^verbatim>\<open>uint64\<close> is a
  64-bit word read through \<open>unat\<close>. Both wrap around as Go's arithmetic does. Addresses, keys, hashes and
  RPC clients are opaque to this file and are numbered. A \<^verbatim>\<open>*balance\<close> is a reference into
  a heap of \<open>balance\<close> objects; reference \<open>0\<close> is never allocated and stands for \<^verbatim>\<open>nil\<close>.
  Times are nanosecond readings of \<^verbatim>\<open>time.Now()\<close>, durations are nanoseconds.
\<close>

type_synonym go_int = "64 word"
type_synonym uint64 = "64 word"
type_synonym address = nat
type_synonym privkey = nat
type_synonym hash = nat
type_synonym client = nat
type_synonym ref = nat
type_synonym time = int
type_synonym duration = int

record balance =
  address :: address
  privateKey :: privkey
  amount :: go_int
  shard :: nat
  nonce :: uint64
  tx :: "hash option"
  packed :: bool

text \<open>
  What \<^verbatim>\<open>util.GenerateTx\<close> is called with, together with the hash of the signed
  transaction. The value is a \<^verbatim>\<open>big.Int\<close>, hence unbounded.
\<close>

record transaction =
  tx_from :: privkey
  tx_to :: address
  tx_value :: int
  tx_price :: int
  tx_nonce :: uint64
  tx_hash :: hash

datatype jvalue = JString string | JNumber int | JNull

type_synonym tx_result = "(string \<times> jvalue) list"

datatype panic =
    IntnInvalidArgument
  | NoClientFound
  | NotFoundClientInShard nat
  | NilDereference

text \<open>
  The run's configuration: the flags \<^verbatim>\<open>mode\<close> and \<^verbatim>\<open>tps\<close>, the package variable
  \<^verbatim>\<open>clientList\<close> (a map from shard to client, kept as an association list), and the
  imported functions and constants whose code is outside the file: \<^verbatim>\<open>Address.Shard\<close>,
  \<^verbatim>\<open>common.SeeleToFan\<close> and \<^verbatim>\<open>util.GetTransactionByHash\<close>, which returns a result map
  and whether an error came with it.
\<close>

record config =
  mode :: go_int
  tps :: go_int
  clientList :: "(nat \<times> client) list"
  Shard :: "address \<Rightarrow> nat"
  SeeleToFan :: int
  GetTransactionByHash :: "client \<Rightarrow> hash \<Rightarrow> tx_result \<times> bool"

text \<open>
  Everything the outside world contributes to one iteration of a sending loop: the two
  pseudo-random draws, the key pair made by \<^verbatim>\<open>crypto.MustGenerateShardKeyPair\<close>, whether
  \<^verbatim>\<open>util.GenerateTx\<close> fails and the hash it computes, what \<^verbatim>\<open>util.SendTx\<close> answers, and
  the two clock readings of the rate limiter.
\<close>

record env =
  rnd_amount :: nat
  rnd_client :: nat
  fresh_addr :: address
  fresh_key :: privkey
  gen_err :: bool
  gen_hash :: hash
  sendtx_ok :: bool
  sendtx_err :: bool
  now_elapse :: time
  now_reset :: time

section \<open>The transaction generator: \<^verbatim>\<open>send\<close>\<close>

text \<open>
  \<^verbatim>\<open>rand.Intn(n)\<close> panics when \<open>n \<le> 0\<close> and otherwise returns a value of \<open>[0, n)\<close>; every
  value of the interval is the remainder of some raw draw.
\<close>

definition Intn :: "nat \<Rightarrow> int \<Rightarrow> panic + int" where
  "Intn raw n = (if n \<le> 0 then Inl IntnInvalidArgument else Inr (int raw mod n))"

text \<open>
  \<^verbatim>\<open>getRandClient\<close> (lines 313-330): panics on an empty client list, otherwise returns the
  client met at a random position of the iteration.
\<close>

definition getRandClient :: "config \<Rightarrow> env \<Rightarrow> panic + client" where
  "getRandClient cfg e =
     (if length (clientList cfg) = 0 then Inl NoClientFound
      else (case Intn (rnd_client e) (int (length (clientList cfg))) of
              Inl p \<Rightarrow> Inl p
            | Inr index \<Rightarrow> Inr (snd (clientList cfg ! nat index))))"

text \<open>
  \<^verbatim>\<open>util.GenerateTx\<close> and \<^verbatim>\<open>util.SendTx\<close> are imported. The first either fails or
  returns a transaction made of its arguments; the second answers \<^verbatim>\<open>(ok, err)\<close>. Their
  outcomes are read from the environment.
\<close>

definition GenerateTx ::
  "env \<Rightarrow> privkey \<Rightarrow> address \<Rightarrow> int \<Rightarrow> int \<Rightarrow> uint64 \<Rightarrow> transaction option" where
  "GenerateTx e from to val price n =
     (if gen_err e then None
      else Some \<lparr>tx_from = from, tx_to = to, tx_value = val, tx_price = price,
                 tx_nonce = n, tx_hash = gen_hash e\<rparr>)"

definition SendTx :: "env \<Rightarrow> client \<Rightarrow> transaction \<Rightarrow> bool \<times> bool" where
  "SendTx e c t = (sendtx_ok e, sendtx_err e)"

text \<open>
  The amount of lines 274-279: a random draw below the source's amount in mode 1, the
  whole amount in mode 3, and 1 in every other mode.
\<close>

definition send_amount :: "config \<Rightarrow> env \<Rightarrow> balance \<Rightarrow> panic + go_int" where
  "send_amount cfg e b =
     (if mode cfg = 1 then
        (case Intn (rnd_amount e) (sint (amount b)) of
           Inl p \<Rightarrow> Inl p
         | Inr r \<Rightarrow> Inr (word_of_int r))
      else if mode cfg = 3 then Inr (amount b)
      else Inr 1)"

text \<open>
  \<^verbatim>\<open>send\<close> (lines 273-311). The Go function mutates \<^verbatim>\<open>*b\<close> and returns the new
  beneficiary; the model returns the beneficiary, the source entry after the call, and
  the transaction the ledger accepted, if any (the effect of \<^verbatim>\<open>util.SendTx\<close>).
\<close>

definition send :: "config \<Rightarrow> env \<Rightarrow> balance \<Rightarrow> panic + (balance \<times> balance \<times> transaction option)" where
  "send cfg e b =
     (case send_amount cfg e b of
        Inl p \<Rightarrow> Inl p
      | Inr amt \<Rightarrow>
          let addr = fresh_addr e;
              newBalance = \<lparr>address = addr, privateKey = fresh_key e, amount = amt,
                            shard = Shard cfg addr, nonce = 0, tx = None, packed = False\<rparr>;
              val = sint amt * SeeleToFan cfg
          in (case getRandClient cfg e of
                Inl p \<Rightarrow> Inl p
              | Inr c \<Rightarrow>
                  (case GenerateTx e (privateKey b) addr val 1 (nonce b) of
                     None \<Rightarrow> Inr (newBalance, b, None)
                   | Some t \<Rightarrow>
                       (case SendTx e c t of
                          (ok, err) \<Rightarrow>
                            if \<not> ok \<or> err then Inr (newBalance, b, None)
                            else Inr (newBalance\<lparr>tx := Some (tx_hash t)\<rparr>,
                                      b\<lparr>nonce := nonce b + 1, amount := amount b - amt\<rparr>,
                                      Some t)))))"

text \<open>
  A submission succeeds when the transaction is generated and the ledger accepts it
  without an RPC error. \<^verbatim>\<open>send\<close> gets as far as the submission when the client list
  is not empty and, in mode 1, the source's amount is positive.
\<close>

definition submission_ok :: "env \<Rightarrow> bool" where
  "submission_ok e = (\<not> gen_err e \<and> sendtx_ok e \<and> \<not> sendtx_err e)"

definition reaches_submission :: "config \<Rightarrow> balance \<Rightarrow> bool" where
  "reaches_submission cfg b = (clientList cfg \<noteq> [] \<and> (mode cfg = 1 \<longrightarrow> 0 <s amount b))"

text \<open>
  Successive calls of \<^verbatim>\<open>send\<close> on one source entry, as the sending loops make them
  pass after pass: the beneficiaries returned, the accepted transactions, and the entry
  at the end.
\<close>

fun sends :: "config \<Rightarrow> env list \<Rightarrow> balance \<Rightarrow> panic + (balance list \<times> transaction list \<times> balance)" where
  "sends cfg [] b = Inr ([], [], b)"
| "sends cfg (e # es) b =
     (case send cfg e b of
        Inl p \<Rightarrow> Inl p
      | Inr (nb, b', t) \<Rightarrow>
          (case sends cfg es b' of
             Inl p \<Rightarrow> Inl p
           | Inr (nbs, ts, b'') \<Rightarrow> Inr (nb # nbs, (case t of None \<Rightarrow> [] | Some x \<Rightarrow> [x]) @ ts, b'')))"

text \<open>Concrete inputs used to run the definitions.\<close>

definition cfg1 :: config where
  "cfg1 = \<lparr>mode = 1, tps = 2, clientList = [(1, 7)], Shard = (\<lambda>a. 1),
           SeeleToFan = 100000000,
           GetTransactionByHash = (\<lambda>c h. ([(''status'', JString ''block'')], False))\<rparr>"

definition entry100 :: balance where
  "entry100 = \<lparr>address = 11, privateKey = 21, amount = 100, shard = 1, nonce = 4,
                tx = None, packed = False\<rparr>"

definition env_ok :: env where
  "env_ok = \<lparr>rnd_amount = 30, rnd_client = 0, fresh_addr = 12, fresh_key = 22,
             gen_err = False, gen_hash = 99, sendtx_ok = True, sendtx_err = False,
             now_elapse = 100000000, now_reset = 100000000\<rparr>"

definition env_zero :: env where
  "env_zero = env_ok\<lparr>rnd_amount := 200\<rparr>"

definition env_rejected :: env where
  "env_rejected = env_ok\<lparr>sendtx_ok := False\<rparr>"

text \<open>
  The transaction \<^verbatim>\<open>send\<close> hands to \<^verbatim>\<open>util.SendTx\<close> (lines 274-300): it is signed
  with the nonce the entry has at the call, before the ledger's answer is known. There
  is none when \<^verbatim>\<open>send\<close> panics first or \<^verbatim>\<open>util.GenerateTx\<close> fails.
\<close>

definition handed_over :: "config \<Rightarrow> env \<Rightarrow> balance \<Rightarrow> transaction option" where
  "handed_over cfg e b =
     (case send_amount cfg e b of
        Inl p \<Rightarrow> None
      | Inr amt \<Rightarrow>
          (case getRandClient cfg e of
             Inl p \<Rightarrow> None
           | Inr c \<Rightarrow>
               GenerateTx e (privateKey b) (fresh_addr e) (sint amt * SeeleToFan cfg) 1 (nonce b)))"

text \<open>
  All the transactions one entry hands to the ledger over successive calls of
  \<^verbatim>\<open>send\<close>, accepted or not, in the order of the calls; and their nonces.
\<close>

fun submitted :: "config \<Rightarrow> env list \<Rightarrow> balance \<Rightarrow> transaction list" where
  "submitted cfg [] b = []"
| "submitted cfg (e # es) b =
     (case handed_over cfg e b of None \<Rightarrow> [] | Some x \<Rightarrow> [x]) @
     (case send cfg e b of
        Inl p \<Rightarrow> []
      | Inr (nb, b', t) \<Rightarrow> submitted cfg es b')"

definition submitted_nonces :: "config \<Rightarrow> env list \<Rightarrow> balance \<Rightarrow> uint64 list" where
  "submitted_nonces cfg es b = map tx_nonce (submitted cfg es b)"

text \<open>
  The nonces of the transactions of one entry that the ledger accepted
  (\<^verbatim>\<open>util.SendTx\<close> answered ok without an error), in the order of their submission. A
  transaction that was handed over and rejected is not among them.
\<close>

definition accepted_nonces :: "config \<Rightarrow> env list \<Rightarrow> balance \<Rightarrow> uint64 list" where
  "accepted_nonces cfg es b =
     (case sends cfg es b of
        Inl p \<Rightarrow> []
      | Inr (nbs, ts, b') \<Rightarrow> map tx_nonce ts)"

definition entry_last_nonce :: balance where
  "entry_last_nonce = entry100\<lparr>nonce := 18446744073709551615\<rparr>"

section \<open>The rate limiter\<close>

text \<open>
  \<^verbatim>\<open>time.Second\<close>, \<^verbatim>\<open>time.Minute\<close> and \<^verbatim>\<open>Time.Sub\<close>, which saturates at the
  largest and smallest \<^verbatim>\<open>Duration\<close>.
\<close>

definition Second :: duration where
  "Second = 1000000000"

definition Minute :: duration where
  "Minute = 60 * Second"

definition maxDuration :: duration where
  "maxDuration = 2 ^ 63 - 1"

definition minDuration :: duration where
  "minDuration = - (2 ^ 63)"

text \<open>A \<^verbatim>\<open>Duration\<close> is an \<^verbatim>\<open>int64\<close>: arithmetic on durations wraps.\<close>

definition wrap64 :: "int \<Rightarrow> int" where
  "wrap64 x = sint (word_of_int x :: 64 word)"

definition Sub :: "time \<Rightarrow> time \<Rightarrow> duration" where
  "Sub t u =
     (if t - u > maxDuration then maxDuration
      else if t - u < minDuration then minDuration
      else t - u)"

text \<open>
  The throttle block, written twice in the source: lines 174-184 of
  \<^verbatim>\<open>loopSendMode1_2\<close> on the local \<^verbatim>\<open>count\<close>, lines 136-146 of \<^verbatim>\<open>SendMode3\<close> on the
  package variable \<^verbatim>\<open>tpsCount\<close>; both on the package variable \<^verbatim>\<open>tpsStartTime\<close>. It
  takes the ceiling, the clock reading of the \<^verbatim>\<open>elapse\<close> computation, the clock reading
  of the reset, and the pair of the running count and the window start. It returns the
  duration handed to \<^verbatim>\<open>time.Sleep\<close> (if any), whether the window was reset, and the
  new pair.
\<close>

definition throttle ::
  "go_int \<Rightarrow> time \<Rightarrow> time \<Rightarrow> go_int \<times> time \<Rightarrow> duration option \<times> bool \<times> go_int \<times> time" where
  "throttle k now now' cs =
     (let count = fst cs + 1 in
      if count = k then
        (let elapse = Sub now (snd cs) in
         (if elapse < Second then Some (wrap64 (Second - elapse)) else None, True, 0, now'))
      else (None, False, count, snd cs))"

text \<open>
  A worker's sends in sequence, each followed by the throttle block: the outcomes of the
  block, send by send. A window is completed by a reset; \<open>window_sizes\<close> counts the sends
  of each completed window, the send that triggers the reset included.
\<close>

fun throttle_run ::
  "go_int \<Rightarrow> (time \<times> time) list \<Rightarrow> go_int \<times> time \<Rightarrow> (duration option \<times> bool) list" where
  "throttle_run k [] cs = []"
| "throttle_run k (t # ts) cs =
     (case throttle k (fst t) (snd t) cs of
        (sl, rs, cs') \<Rightarrow> (sl, rs) # throttle_run k ts cs')"

fun window_sizes :: "nat \<Rightarrow> bool list \<Rightarrow> nat list" where
  "window_sizes c [] = []"
| "window_sizes c (r # rs) =
     (if r then Suc c # window_sizes 0 rs else window_sizes (Suc c) rs)"

text \<open>
  The limiter variables of a run with several workers: the package variables
  \<^verbatim>\<open>tpsStartTime\<close> and \<^verbatim>\<open>tpsCount\<close> (lines 86-87), of which there is one each, and the
  local \<^verbatim>\<open>count\<close> of every \<^verbatim>\<open>loopSendMode1_2\<close> (line 155), by thread number.
\<close>

record limiters =
  g_tpsStartTime :: time
  g_tpsCount :: go_int
  l_count :: "nat \<Rightarrow> go_int"

text \<open>Lines 155-156: a mode-1/2 worker starts.\<close>

definition start_worker12 :: "nat \<Rightarrow> time \<Rightarrow> limiters \<Rightarrow> limiters" where
  "start_worker12 threadNum now L =
     L\<lparr>l_count := (l_count L)(threadNum := 0), g_tpsStartTime := now\<rparr>"

text \<open>Lines 174-184: the throttle block of worker \<open>threadNum\<close> in modes 1 and 2.\<close>

definition throttle_worker12 ::
  "go_int \<Rightarrow> nat \<Rightarrow> time \<Rightarrow> time \<Rightarrow> limiters \<Rightarrow> duration option \<times> limiters" where
  "throttle_worker12 k threadNum now now' L =
     (case throttle k now now' (l_count L threadNum, g_tpsStartTime L) of
        (sl, rs, c, st) \<Rightarrow>
          (sl, L\<lparr>l_count := (l_count L)(threadNum := c), g_tpsStartTime := st\<rparr>))"

text \<open>Line 95 and lines 136-146: the same for a mode-3 worker, on the package variables.\<close>

definition start_worker3 :: "time \<Rightarrow> limiters \<Rightarrow> limiters" where
  "start_worker3 now L = L\<lparr>g_tpsStartTime := now\<rparr>"

definition throttle_worker3 ::
  "go_int \<Rightarrow> time \<Rightarrow> time \<Rightarrow> limiters \<Rightarrow> duration option \<times> limiters" where
  "throttle_worker3 k now now' L =
     (case throttle k now now' (g_tpsCount L, g_tpsStartTime L) of
        (sl, rs, c, st) \<Rightarrow> (sl, L\<lparr>g_tpsCount := c, g_tpsStartTime := st\<rparr>))"

definition limiters0 :: limiters where
  "limiters0 = \<lparr>g_tpsStartTime = 0, g_tpsCount = 0, l_count = (\<lambda>n. 0)\<rparr>"

text \<open>
  Two schedules with a ceiling of 2, to evaluate the throttle block on. In the first,
  worker 1 runs alone: it starts at time 0 and has sent once, at 0.5 s. In the second,
  worker 0 runs beside it: both start at time 0, worker 0 sends at 0.1 s and 0.2 s,
  sleeps for the rest of its second and resets the window at 1 s; worker 1 has sent
  once, at 0.5 s.
\<close>

definition worker1_alone :: limiters where
  "worker1_alone =
     snd (throttle_worker12 2 1 500000000 500000000 (start_worker12 1 0 limiters0))"

definition worker1_beside_worker0 :: limiters where
  "worker1_beside_worker0 =
     snd (throttle_worker12 2 1 500000000 500000000
       (snd (throttle_worker12 2 0 200000000 1000000000
         (snd (throttle_worker12 2 0 100000000 100000000
           (start_worker12 1 0 (start_worker12 0 0 limiters0)))))))"

section \<open>Slices, the heap and the state of one worker and its monitor\<close>

text \<open>
  A Go slice is a header (backing array, length, capacity) that is copied when it is
  passed or assigned; the backing arrays live in a store. Every slice of this file
  starts at index 0 of its array. \<^verbatim>\<open>StartSend\<close> hands the same header to
  \<^verbatim>\<open>loopSendMode1_2\<close> and to \<^verbatim>\<open>loopCheckMode1\<close>; from then on each goroutine has its own
  parameter variable \<^verbatim>\<open>balanceList\<close>: \<open>w_balanceList\<close> is the worker's,
  \<open>m_balanceList\<close> the monitor's. The monitor's \<^verbatim>\<open>toPackedBalanceList\<close> and
  \<^verbatim>\<open>toConfirmBalanceList\<close> are local to it and kept as a list and as an association
  list with distinct keys. \<open>txCh\<close> is the content of the channel, \<open>ledger\<close> the
  transactions the ledger accepted.
\<close>

record slice =
  s_arr :: nat
  s_len :: nat
  s_cap :: nat

record state =
  objs :: "ref \<Rightarrow> balance option"
  next_ref :: ref
  arrs :: "nat \<Rightarrow> ref list"
  next_arr :: nat
  txCh :: "ref list"
  limiter :: limiters
  ledger :: "transaction list"
  w_balanceList :: slice
  m_balanceList :: slice
  toPackedBalanceList :: "ref list"
  toConfirmBalanceList :: "(time \<times> ref list) list"

definition elems :: "state \<Rightarrow> slice \<Rightarrow> ref list" where
  "elems s sl = take (s_len sl) (arrs s (s_arr sl))"

text \<open>\<^verbatim>\<open>make([]*balance, n)\<close>: a new array of \<open>n\<close> nil pointers.\<close>

definition make_slice :: "state \<Rightarrow> nat \<Rightarrow> state \<times> slice" where
  "make_slice s n =
     (s\<lparr>arrs := (arrs s)(next_arr s := replicate n 0), next_arr := Suc (next_arr s)\<rparr>,
      \<lparr>s_arr = next_arr s, s_len = n, s_cap = n\<rparr>)"

text \<open>
  \<^verbatim>\<open>append(sl, vs...)\<close>: within the capacity the elements are written into the backing
  array behind the slice's length; beyond it a new array is allocated (at least as
  large as needed; the runtime picks the capacity, here the larger of what is needed
  and twice the old one) and the old array is left as it is. Only the returned header
  has the new length.
\<close>

definition append_slice :: "state \<Rightarrow> slice \<Rightarrow> ref list \<Rightarrow> state \<times> slice" where
  "append_slice s sl vs =
     (let n = s_len sl + length vs in
      if n \<le> s_cap sl then
        (s\<lparr>arrs := (arrs s)(s_arr sl :=
               take (s_len sl) (arrs s (s_arr sl)) @ vs @ drop n (arrs s (s_arr sl)))\<rparr>,
         sl\<lparr>s_len := n\<rparr>)
      else
        (let c = max n (2 * s_cap sl) in
         (s\<lparr>arrs := (arrs s)(next_arr s := elems s sl @ vs @ replicate (c - n) 0),
            next_arr := Suc (next_arr s)\<rparr>,
          \<lparr>s_arr = next_arr s, s_len = n, s_cap = c\<rparr>)))"

text \<open>
  \<^verbatim>\<open>StartSend\<close> in modes 1 and 2 (lines 70-84): the partition \<open>part\<close>, as
  \<^verbatim>\<open>newBalancesList\<close> made it (length equal to capacity), is the \<^verbatim>\<open>balanceList\<close> of both
  goroutines.
\<close>

definition StartSend :: "(ref \<Rightarrow> balance option) \<Rightarrow> ref \<Rightarrow> ref list \<Rightarrow> state" where
  "StartSend heap fresh part =
     \<lparr>objs = heap, next_ref = fresh, arrs = (\<lambda>a. [])(0 := part), next_arr = 1, txCh = [],
      limiter = limiters0, ledger = [],
      w_balanceList = \<lparr>s_arr = 0, s_len = length part, s_cap = length part\<rparr>,
      m_balanceList = \<lparr>s_arr = 0, s_len = length part, s_cap = length part\<rparr>,
      toPackedBalanceList = [], toConfirmBalanceList = []\<rparr>"

section \<open>The worker loop: \<^verbatim>\<open>loopSendMode1_2\<close>\<close>

text \<open>Lines 155-156.\<close>

definition loopSendMode1_2_start :: "nat \<Rightarrow> time \<Rightarrow> state \<Rightarrow> state" where
  "loopSendMode1_2_start threadNum now s = s\<lparr>limiter := start_worker12 threadNum now (limiter s)\<rparr>"

text \<open>
  The body of the inner loop (lines 167-184) for the entry \<open>r\<close>: \<^verbatim>\<open>send\<close> on the object
  \<open>r\<close> points to, the new beneficiary allocated at a fresh reference and, in mode 1 and
  with a positive amount, put on the channel; then the throttle block. A full channel
  makes the worker wait for the monitor and changes no value; the model enqueues.
\<close>

definition loop_body :: "config \<Rightarrow> nat \<Rightarrow> env \<Rightarrow> ref \<Rightarrow> state \<Rightarrow> panic + state" where
  "loop_body cfg threadNum e r s =
     (case objs s r of
        None \<Rightarrow> Inl NilDereference
      | Some b \<Rightarrow>
          (case send cfg e b of
             Inl p \<Rightarrow> Inl p
           | Inr (newBalance, b', t) \<Rightarrow>
               let nr = next_ref s;
                   s1 = s\<lparr>objs := (objs s)(r \<mapsto> b', nr \<mapsto> newBalance), next_ref := Suc nr,
                          ledger := ledger s @ (case t of None \<Rightarrow> [] | Some x \<Rightarrow> [x])\<rparr>;
                   s2 = (if mode cfg = 1 \<and> 0 <s amount newBalance
                         then s1\<lparr>txCh := txCh s1 @ [nr]\<rparr> else s1)
               in Inr (s2\<lparr>limiter :=
                     snd (throttle_worker12 (tps cfg) threadNum (now_elapse e) (now_reset e)
                            (limiter s2))\<rparr>)))"

text \<open>The inner loop over the snapshot; \<open>envs i\<close> is the environment of iteration \<open>i\<close>.\<close>

fun send_loop :: "config \<Rightarrow> nat \<Rightarrow> (nat \<Rightarrow> env) \<Rightarrow> nat \<Rightarrow> ref list \<Rightarrow> state \<Rightarrow> panic + state" where
  "send_loop cfg threadNum envs i [] s = Inr s"
| "send_loop cfg threadNum envs i (r # rs) s =
     (case loop_body cfg threadNum (envs i) r s of
        Inl p \<Rightarrow> Inl p
      | Inr s' \<Rightarrow> send_loop cfg threadNum envs (Suc i) rs s')"

text \<open>
  Lines 187-195: the entries of the worker's \<^verbatim>\<open>balanceList\<close> with a positive amount are
  appended to a new slice, which becomes the worker's \<^verbatim>\<open>balanceList\<close>.
\<close>

fun keep_positive :: "ref list \<Rightarrow> state \<Rightarrow> slice \<Rightarrow> panic + (state \<times> slice)" where
  "keep_positive [] s nextBalanceList = Inr (s, nextBalanceList)"
| "keep_positive (r # rs) s nextBalanceList =
     (case objs s r of
        None \<Rightarrow> Inl NilDereference
      | Some b \<Rightarrow>
          if 0 <s amount b then
            (case append_slice s nextBalanceList [r] of
               (s', nextBalanceList') \<Rightarrow> keep_positive rs s' nextBalanceList')
          else keep_positive rs s nextBalanceList)"

definition drop_exhausted :: "state \<Rightarrow> panic + state" where
  "drop_exhausted s =
     (case make_slice s 0 of
        (s0, nextBalanceList) \<Rightarrow>
          (case keep_positive (elems s (w_balanceList s)) s0 nextBalanceList of
             Inl p \<Rightarrow> Inl p
           | Inr (s', nextBalanceList') \<Rightarrow> Inr (s'\<lparr>w_balanceList := nextBalanceList'\<rparr>)))"

text \<open>
  One round of the outer loop (lines 159-196): the snapshot \<^verbatim>\<open>copyBalances\<close> of the
  worker's \<^verbatim>\<open>balanceList\<close> (a private copy, kept as a list), the inner loop over it,
  and the removal of the exhausted entries. \<open>worker_passes\<close> is a number of rounds,
  round \<open>j\<close> with the environments \<open>envss j\<close>.
\<close>

definition worker_pass :: "config \<Rightarrow> nat \<Rightarrow> (nat \<Rightarrow> env) \<Rightarrow> state \<Rightarrow> panic + state" where
  "worker_pass cfg threadNum envs s =
     (let copyBalances = elems s (w_balanceList s) in
      case send_loop cfg threadNum envs 0 copyBalances s of
        Inl p \<Rightarrow> Inl p
      | Inr s' \<Rightarrow> drop_exhausted s')"

fun worker_passes :: "config \<Rightarrow> nat \<Rightarrow> (nat \<Rightarrow> nat \<Rightarrow> env) \<Rightarrow> nat \<Rightarrow> nat \<Rightarrow> state \<Rightarrow> panic + state" where
  "worker_passes cfg threadNum envss j 0 s = Inr s"
| "worker_passes cfg threadNum envss j (Suc n) s =
     (case worker_pass cfg threadNum (envss j) s of
        Inl p \<Rightarrow> Inl p
      | Inr s' \<Rightarrow> worker_passes cfg threadNum envss (Suc j) n s')"

text \<open>
  The worker's pool is what its \<^verbatim>\<open>balanceList\<close> holds. The pool is sound when every
  entry of it is an allocated object (below the allocator's next reference) with a
  positive amount.
\<close>

definition pool :: "state \<Rightarrow> ref list" where
  "pool s = elems s (w_balanceList s)"

definition positive :: "(ref \<Rightarrow> balance option) \<Rightarrow> ref \<Rightarrow> bool" where
  "positive heap r = (case heap r of None \<Rightarrow> False | Some b \<Rightarrow> 0 <s amount b)"

definition pool_sound :: "state \<Rightarrow> bool" where
  "pool_sound s = list_all (\<lambda>r. r < next_ref s \<and> positive (objs s) r) (pool s)"

text \<open>
  The last loop of \<^verbatim>\<open>initAccount\<close> (lines 355-360) keeps the entries that are not nil and
  have a positive amount; the pool of a run is made of these.
\<close>

definition initAccount_result :: "(ref \<Rightarrow> balance option) \<Rightarrow> ref list \<Rightarrow> ref list" where
  "initAccount_result heap balanceList = filter (positive heap) balanceList"

text \<open>
  A slice header is well formed when its length is within its capacity and its
  capacity within the backing array.
\<close>

definition wf_slice :: "state \<Rightarrow> slice \<Rightarrow> bool" where
  "wf_slice s sl = (s_len sl \<le> s_cap sl \<and> s_cap sl \<le> length (arrs s (s_arr sl)))"

section \<open>The confirmation monitor: \<^verbatim>\<open>loopCheckMode1\<close>\<close>

text \<open>\<^verbatim>\<open>getClient\<close> (lines 419-427) and \<^verbatim>\<open>getTx\<close> (lines 261-271).\<close>

definition getClient :: "config \<Rightarrow> address \<Rightarrow> panic + client" where
  "getClient cfg a =
     (case map_of (clientList cfg) (Shard cfg a) of
        None \<Rightarrow> Inl (NotFoundClientInShard (Shard cfg a))
      | Some c \<Rightarrow> Inr c)"

definition getTx :: "config \<Rightarrow> address \<Rightarrow> hash \<Rightarrow> panic + tx_result" where
  "getTx cfg a h =
     (case getClient cfg a of
        Inl p \<Rightarrow> Inl p
      | Inr c \<Rightarrow>
          (case GetTransactionByHash cfg c h of
             (result, err) \<Rightarrow> if err then Inr result else Inr result))"

text \<open>
  \<^verbatim>\<open>getIncludedAndPendingBalance\<close> (lines 235-259), with the two result slices as
  accumulators.
\<close>

fun classify_loop ::
  "config \<Rightarrow> (ref \<Rightarrow> balance option) \<Rightarrow> ref list \<Rightarrow> ref list \<Rightarrow> ref list \<Rightarrow> panic + (ref list \<times> ref list)" where
  "classify_loop cfg heap [] include pending = Inr (include, pending)"
| "classify_loop cfg heap (r # rs) include pending =
     (case heap r of
        None \<Rightarrow> Inl NilDereference
      | Some b \<Rightarrow>
          (case tx b of
             None \<Rightarrow> classify_loop cfg heap rs include pending
           | Some h \<Rightarrow>
               (case getTx cfg (address b) h of
                  Inl p \<Rightarrow> Inl p
                | Inr result \<Rightarrow>
                    if length result > 0 then
                      (if map_of result ''status'' = Some (JString ''block'')
                       then classify_loop cfg heap rs (include @ [r]) pending
                       else if map_of result ''status'' = Some (JString ''pool'')
                       then classify_loop cfg heap rs include (pending @ [r])
                       else classify_loop cfg heap rs include pending)
                    else classify_loop cfg heap rs include pending)))"

definition getIncludedAndPendingBalance ::
  "config \<Rightarrow> (ref \<Rightarrow> balance option) \<Rightarrow> ref list \<Rightarrow> panic + (ref list \<times> ref list)" where
  "getIncludedAndPendingBalance cfg heap balances = classify_loop cfg heap balances [] []"

text \<open>The three cases of the \<^verbatim>\<open>select\<close> (lines 208-231), one step each.\<close>

definition receive :: "state \<Rightarrow> state" where
  "receive s =
     (case txCh s of
        [] \<Rightarrow> s
      | b # rest \<Rightarrow> s\<lparr>txCh := rest, toPackedBalanceList := toPackedBalanceList s @ [b]\<rparr>)"

definition checkPack_tick :: "config \<Rightarrow> time \<Rightarrow> state \<Rightarrow> panic + state" where
  "checkPack_tick cfg now s =
     (case getIncludedAndPendingBalance cfg (objs s) (toPackedBalanceList s) of
        Inl p \<Rightarrow> Inl p
      | Inr (included, pending) \<Rightarrow>
          Inr (s\<lparr>toPackedBalanceList := pending,
                 toConfirmBalanceList :=
                   (now, included) # filter (\<lambda>kv. fst kv \<noteq> now) (toConfirmBalanceList s)\<rparr>))"

definition confirmTime :: duration where
  "confirmTime = 2 * Minute"

text \<open>
  The sweep of lines 219-230 over the buckets present when the timer fires; \<open>clock i\<close>
  is the reading of \<^verbatim>\<open>time.Now()\<close> at the \<open>i\<close>-th bucket. The \<^verbatim>\<open>append\<close> assigns to the
  monitor's own \<^verbatim>\<open>balanceList\<close>.
\<close>

fun confirm_sweep :: "(nat \<Rightarrow> time) \<Rightarrow> nat \<Rightarrow> (time \<times> ref list) list \<Rightarrow> state \<Rightarrow> state" where
  "confirm_sweep clock i [] s = s"
| "confirm_sweep clock i (kv # rest) s =
     (let duration = Sub (clock i) (fst kv) in
      if duration > confirmTime then
        (case append_slice s (m_balanceList s) (snd kv) of
           (s', balanceList') \<Rightarrow>
             confirm_sweep clock (Suc i) rest
               (s'\<lparr>m_balanceList := balanceList',
                   toConfirmBalanceList :=
                     filter (\<lambda>kv'. fst kv' \<noteq> fst kv) (toConfirmBalanceList s')\<rparr>))
      else confirm_sweep clock (Suc i) rest s)"

definition confirm_tick :: "(nat \<Rightarrow> time) \<Rightarrow> state \<Rightarrow> state" where
  "confirm_tick clock s = confirm_sweep clock 0 (toConfirmBalanceList s) s"

text \<open>
  The status the ledger reports for the transaction of the queued entry \<open>r\<close>: the
  \<^verbatim>\<open>"status"\<close> field of what \<^verbatim>\<open>getTx\<close> returns, if the entry has a transaction and
  the result has the field. The queue can be polled without a panic when its entries
  are allocated and every shard of an entry with a transaction has a client.
\<close>

definition status_of :: "config \<Rightarrow> (ref \<Rightarrow> balance option) \<Rightarrow> ref \<Rightarrow> jvalue option" where
  "status_of cfg heap r =
     (case heap r of
        None \<Rightarrow> None
      | Some b \<Rightarrow>
          (case tx b of
             None \<Rightarrow> None
           | Some h \<Rightarrow>
               (case getTx cfg (address b) h of
                  Inl p \<Rightarrow> None
                | Inr result \<Rightarrow> map_of result ''status'')))"

definition queue_ok :: "config \<Rightarrow> state \<Rightarrow> bool" where
  "queue_ok cfg s =
     list_all (\<lambda>r. case objs s r of
                     None \<Rightarrow> False
                   | Some b \<Rightarrow> tx b = None \<or> map_of (clientList cfg) (Shard cfg (address b)) \<noteq> None)
       (toPackedBalanceList s)"

text \<open>The queue and the buckets after a poll.\<close>

definition poll_outcome :: "config \<Rightarrow> time \<Rightarrow> state \<Rightarrow> (ref list \<times> (time \<times> ref list) list) option" where
  "poll_outcome cfg now s =
     (case checkPack_tick cfg now s of
        Inl p \<Rightarrow> None
      | Inr s' \<Rightarrow> Some (toPackedBalanceList s', toConfirmBalanceList s'))"

text \<open>
  A run used to evaluate the definitions: one worker in mode 1 with the single entry
  \<open>entry100\<close> at reference 1; its first send succeeds and makes the beneficiary at
  reference 2.
\<close>

definition heap1 :: "ref \<Rightarrow> balance option" where
  "heap1 = Map.empty(1 \<mapsto> entry100)"

definition beneficiary30 :: balance where
  "beneficiary30 = \<lparr>address = 12, privateKey = 22, amount = 30, shard = 1, nonce = 0,
                     tx = Some 99, packed = False\<rparr>"

definition state_queued :: state where
  "state_queued = (StartSend (heap1(2 \<mapsto> beneficiary30)) 3 [1])\<lparr>toPackedBalanceList := [2]\<rparr>"

definition cfg_query_error :: config where
  "cfg_query_error = cfg1\<lparr>GetTransactionByHash := (\<lambda>c h. ([], True))\<rparr>"

definition cfg_pool_error :: config where
  "cfg_pool_error = cfg1\<lparr>GetTransactionByHash := (\<lambda>c h. ([(''status'', JString ''pool'')], True))\<rparr>"

text \<open>
  A set of entries is sound in a state when each is allocated with a positive amount.
\<close>

definition entries_sound :: "state \<Rightarrow> ref set \<Rightarrow> bool" where
  "entries_sound s P = (\<forall>r \<in> P. r < next_ref s \<and> positive (objs s) r)"

text \<open>
  What a run is observed by: the worker's pool with the amounts of its entries, the
  content of the monitor's \<^verbatim>\<open>balanceList\<close>, the queue and the buckets of the monitor,
  and the channel.
\<close>

definition amount_at :: "state \<Rightarrow> ref \<Rightarrow> int option" where
  "amount_at s r = (case objs s r of None \<Rightarrow> None | Some b \<Rightarrow> Some (sint (amount b)))"

definition observe ::
  "panic + state \<Rightarrow> (ref list \<times> int option list \<times> ref list \<times> ref list \<times> (time \<times> ref list) list \<times> ref list) option" where
  "observe x =
     (case x of
        Inl p \<Rightarrow> None
      | Inr s \<Rightarrow>
          Some (pool s, map (amount_at s) (pool s), elems s (m_balanceList s),
                toPackedBalanceList s, toConfirmBalanceList s, txCh s))"

section \<open>Runs of one worker and its monitor\<close>

text \<open>
  The worker and the monitor take turns in any order: a round of the worker loop, or
  one of the three cases of the monitor's \<^verbatim>\<open>select\<close>. The mutex makes the accesses to
  the slices atomic; a panic in either goroutine ends the run. Two slice headers
  share sanely when the monitor's is well formed, both arrays are allocated, and the
  worker's header is no longer than the monitor's where they share an array.
\<close>

datatype action =
    WorkerPass "nat \<Rightarrow> env"
  | Receive
  | CheckPack time
  | Confirm "nat \<Rightarrow> time"

fun step :: "config \<Rightarrow> nat \<Rightarrow> action \<Rightarrow> state \<Rightarrow> panic + state" where
  "step cfg threadNum (WorkerPass envs) s = worker_pass cfg threadNum envs s"
| "step cfg threadNum Receive s = Inr (receive s)"
| "step cfg threadNum (CheckPack now) s = checkPack_tick cfg now s"
| "step cfg threadNum (Confirm clock) s = Inr (confirm_tick clock s)"

fun run :: "config \<Rightarrow> nat \<Rightarrow> action list \<Rightarrow> state \<Rightarrow> panic + state" where
  "run cfg threadNum [] s = Inr s"
| "run cfg threadNum (a # as) s =
     (case step cfg threadNum a s of
        Inl p \<Rightarrow> Inl p
      | Inr s' \<Rightarrow> run cfg threadNum as s')"

definition share_ok :: "state \<Rightarrow> bool" where
  "share_ok s =
     (wf_slice s (m_balanceList s) \<and> s_arr (m_balanceList s) < next_arr s \<and>
      s_arr (w_balanceList s) < next_arr s \<and>
      (s_arr (w_balanceList s) = s_arr (m_balanceList s) \<longrightarrow>
         s_len (w_balanceList s) \<le> s_len (m_balanceList s)))"

text \<open>
  The run used to evaluate the definitions: the worker starts at time 0 and makes one
  round, in which \<open>entry100\<close> sends 30 to a new beneficiary (reference 2); the monitor
  receives the beneficiary, polls at 30 s and is told \<^verbatim>\<open>"block"\<close>, and sweeps at 60 s
  and at 180 s; then the worker makes its next round.
\<close>

definition state_started :: state where
  "state_started = loopSendMode1_2_start 0 0 (StartSend heap1 2 [1])"

definition actions_included :: "action list" where
  "actions_included = [WorkerPass (\<lambda>i. env_ok), Receive, CheckPack 30000000000]"

definition actions_released :: "action list" where
  "actions_released =
     actions_included @ [Confirm (\<lambda>i. 60000000000), Confirm (\<lambda>i. 180000000000)]"

definition actions_next_pass :: "action list" where
  "actions_next_pass = actions_released @ [WorkerPass (\<lambda>i. env_ok)]"

text \<open>
  A key file that lists the key of \<open>entry100\<close> twice makes \<^verbatim>\<open>initBalance\<close> build two
  entries for the one address, both with the nonce the ledger reports for it. The
  worker starts with both in its pool; in its first round the ledger accepts the
  transaction of each. \<open>accepted_in\<close> reads the accepted transactions off a state.
\<close>

definition heap_twins :: "ref \<Rightarrow> balance option" where
  "heap_twins = Map.empty(1 \<mapsto> entry100, 2 \<mapsto> entry100)"

definition state_twins :: state where
  "state_twins =
     loopSendMode1_2_start 0 0 (StartSend heap_twins 3 (initAccount_result heap_twins [1, 2]))"

definition envs_twins :: "nat \<Rightarrow> env" where
  "envs_twins i = (if i = 0 then env_ok else env_ok\<lparr>fresh_addr := 13, fresh_key := 23, gen_hash := 98\<rparr>)"

definition accepted_in :: "panic + state \<Rightarrow> transaction list" where
  "accepted_in x = (case x of Inl p \<Rightarrow> [] | Inr s \<Rightarrow> ledger s)"

section \<open>Properties of \<^verbatim>\<open>send\<close>\<close>

lemma sint_word_of_int_small:
  "0 \<le> r \<Longrightarrow> r < sint (a :: 64 word) \<Longrightarrow> sint (word_of_int r :: 64 word) = r"
proof -
  assume r: "0 \<le> r" "r < sint a"
  have "sint a < 2 ^ 63" using sint_lt [of a] by simp
  with r have "- (2 ^ 63) \<le> r" "r < 2 ^ 63" by simp_all
  then show ?thesis
    by (simp add: sint_sbintrunc' signed_take_bit_int_eq_self)
qed

lemma Intn_range: "Intn raw n = Inr r \<Longrightarrow> 0 \<le> r \<and> r < n"
  by (auto simp: Intn_def split: if_splits)

lemma getRandClient_total:
  "clientList cfg \<noteq> [] \<Longrightarrow> \<exists>c. getRandClient cfg e = Inr c"
  by (simp add: getRandClient_def Intn_def)

lemma send_amount_total:
  "reaches_submission cfg b \<Longrightarrow> \<exists>amt. send_amount cfg e b = Inr amt"
  by (auto simp: reaches_submission_def send_amount_def Intn_def word_sless_alt)

lemma send_failed:
  assumes "\<not> submission_ok e" and "send_amount cfg e b = Inr amt" and "getRandClient cfg e = Inr c"
  shows "send cfg e b =
         Inr (\<lparr>address = fresh_addr e, privateKey = fresh_key e, amount = amt,
               shard = Shard cfg (fresh_addr e), nonce = 0, tx = None, packed = False\<rparr>, b, None)"
  using assms by (auto simp: send_def submission_ok_def GenerateTx_def SendTx_def Let_def)

lemma send_succeeded:
  assumes "submission_ok e" and "send_amount cfg e b = Inr amt" and "getRandClient cfg e = Inr c"
  shows "send cfg e b =
         Inr (\<lparr>address = fresh_addr e, privateKey = fresh_key e, amount = amt,
               shard = Shard cfg (fresh_addr e), nonce = 0, tx = Some (gen_hash e), packed = False\<rparr>,
              b\<lparr>nonce := nonce b + 1, amount := amount b - amt\<rparr>,
              Some \<lparr>tx_from = privateKey b, tx_to = fresh_addr e,
                    tx_value = sint amt * SeeleToFan cfg, tx_price = 1,
                    tx_nonce = nonce b, tx_hash = gen_hash e\<rparr>)"
  using assms by (auto simp: send_def submission_ok_def GenerateTx_def SendTx_def Let_def)

lemma unat_nonce_succ:
  "unat (n :: 64 word) < 2 ^ 64 - 1 \<Longrightarrow> unat (n + 1) = unat n + 1"
  by (simp add: unat_word_ariths)

lemma sint_amount_bounds: "- (2 ^ 63) \<le> sint (a :: 64 word) \<and> sint a < 2 ^ 63"
  using sint_ge [of a] sint_lt [of a] by simp

lemma send_amount_range:
  assumes "send_amount cfg e b = Inr amt" and "0 <s amount b"
  shows "0 \<le> sint amt \<and> sint amt \<le> sint (amount b) \<and> (mode cfg = 1 \<longrightarrow> sint amt < sint (amount b))"
proof (cases "mode cfg = 1")
  case True
  with assms(1) obtain r where r: "Intn (rnd_amount e) (sint (amount b)) = Inr r" "amt = word_of_int r"
    by (auto simp: send_amount_def split: sum.splits)
  from Intn_range [OF r(1)] have "0 \<le> r" "r < sint (amount b)" by simp_all
  then have "sint amt = r" using r(2) sint_word_of_int_small by simp
  with \<open>0 \<le> r\<close> \<open>r < sint (amount b)\<close> show ?thesis by simp
next
  case False
  with assms have "amt = amount b \<or> amt = 1"
    by (auto simp: send_amount_def split: if_splits)
  with assms(2) False show ?thesis by (auto simp: word_sless_alt)
qed

lemma send_amount_diff:
  assumes "send_amount cfg e b = Inr amt" and "0 <s amount b"
  shows "sint (amount b - amt) = sint (amount b) - sint amt"
proof -
  from send_amount_range [OF assms] have r: "0 \<le> sint amt" "sint amt \<le> sint (amount b)" by simp_all
  have "sint (amount b) < 2 ^ 63" using sint_amount_bounds by blast
  with r have "- (2 ^ 63) \<le> sint (amount b) - sint amt" "sint (amount b) - sint amt < 2 ^ 63"
    by simp_all
  then show ?thesis
    by (simp add: sint_word_diff signed_take_bit_int_eq_self)
qed

lemma send_total:
  assumes "reaches_submission cfg b"
  shows "\<exists>nb b' t. send cfg e b = Inr (nb, b', t)"
proof -
  obtain amt where a: "send_amount cfg e b = Inr amt"
    using send_amount_total [OF assms] by blast
  obtain c where c: "getRandClient cfg e = Inr c"
    using getRandClient_total [of cfg e] assms by (auto simp: reaches_submission_def)
  show ?thesis
  proof (cases "submission_ok e")
    case True
    then show ?thesis using send_succeeded [OF True a c] by blast
  next
    case False
    then show ?thesis using send_failed [OF False a c] by blast
  qed
qed

lemma send_failed_source:
  assumes "reaches_submission cfg b" and "\<not> submission_ok e"
  shows "\<exists>nb. send cfg e b = Inr (nb, b, None) \<and> tx nb = None"
proof -
  obtain amt where a: "send_amount cfg e b = Inr amt"
    using send_amount_total [OF assms(1)] by blast
  obtain c where c: "getRandClient cfg e = Inr c"
    using getRandClient_total [of cfg e] assms(1) by (auto simp: reaches_submission_def)
  show ?thesis using send_failed [OF assms(2) a c] by simp
qed

text \<open>
  C2. When the submission fails (the transaction cannot be generated, the ledger does not
  accept it, or the RPC call errors), \<^verbatim>\<open>send\<close> returns a beneficiary without a
  transaction hash and the source entry is exactly what it was before the call, its
  nonce and amount included; the same holds after any number of failed calls in a row.
\<close>

theorem send_failure_leaves_source:
  assumes "reaches_submission cfg b" and "\<forall>e \<in> set es. \<not> submission_ok e"
  shows "(\<forall>e \<in> set es. \<exists>nb. send cfg e b = Inr (nb, b, None) \<and> tx nb = None) \<and>
         (\<exists>nbs. sends cfg es b = Inr (nbs, [], b) \<and> length nbs = length es \<and>
                (\<forall>nb \<in> set nbs. tx nb = None))"
proof
  show "\<forall>e \<in> set es. \<exists>nb. send cfg e b = Inr (nb, b, None) \<and> tx nb = None"
    using assms send_failed_source by blast
  show "\<exists>nbs. sends cfg es b = Inr (nbs, [], b) \<and> length nbs = length es \<and>
              (\<forall>nb \<in> set nbs. tx nb = None)"
    using assms(2)
  proof (induction es)
    case Nil
    then show ?case by simp
  next
    case (Cons e es)
    from Cons.prems have "\<not> submission_ok e" by simp
    then obtain nb where nb: "send cfg e b = Inr (nb, b, None)" "tx nb = None"
      using send_failed_source [OF assms(1)] by blast
    from Cons obtain nbs where nbs: "sends cfg es b = Inr (nbs, [], b)"
      "length nbs = length es" "\<forall>x \<in> set nbs. tx x = None" by auto
    have "sends cfg (e # es) b = Inr (nb # nbs, [], b)"
      using nb nbs by simp
    then show ?case using nb nbs by auto
  qed
qed

theorem send_failure_leaves_source_witness:
  "reaches_submission cfg1 entry100 \<and> \<not> submission_ok env_rejected \<and>
   sends cfg1 [env_rejected, env_rejected] entry100 =
     Inr ([\<lparr>address = 12, privateKey = 22, amount = 30, shard = 1, nonce = 0, tx = None, packed = False\<rparr>,
           \<lparr>address = 12, privateKey = 22, amount = 30, shard = 1, nonce = 0, tx = None, packed = False\<rparr>],
          [], entry100)"
proof -
  have r: "reaches_submission cfg1 entry100"
    by (simp add: reaches_submission_def cfg1_def entry100_def word_sless_alt)
  have f: "\<forall>e \<in> set [env_rejected, env_rejected]. \<not> submission_ok e"
    by (simp add: submission_ok_def env_rejected_def env_ok_def)
  have s: "send cfg1 env_rejected entry100 =
        Inr (\<lparr>address = 12, privateKey = 22, amount = 30, shard = 1, nonce = 0, tx = None, packed = False\<rparr>,
             entry100, None)"
    by (simp add: send_def send_amount_def Intn_def getRandClient_def GenerateTx_def SendTx_def
        cfg1_def entry100_def env_rejected_def env_ok_def)
  from send_failure_leaves_source [OF r f] s r f show ?thesis by simp
qed

text \<open>
  C8. When the submission succeeds, \<^verbatim>\<open>send\<close> takes exactly the chosen amount off the
  source's amount, adds one to the source's nonce, and returns a beneficiary that holds
  the hash of the submitted transaction, the chosen amount and nonce 0. The arithmetic
  is that of Go's 64-bit integers; for a positive amount and a nonce below the largest
  \<^verbatim>\<open>uint64\<close> it is the arithmetic of the integers.
\<close>

theorem send_success_updates:
  assumes "reaches_submission cfg b" and "submission_ok e"
  shows "\<exists>amt nb b' t.
           send_amount cfg e b = Inr amt \<and> send cfg e b = Inr (nb, b', Some t) \<and>
           amount b' = amount b - amt \<and> nonce b' = nonce b + 1 \<and>
           b' = b\<lparr>nonce := nonce b + 1, amount := amount b - amt\<rparr> \<and>
           tx nb = Some (tx_hash t) \<and> amount nb = amt \<and> nonce nb = 0 \<and>
           tx_nonce t = nonce b \<and> tx_from t = privateKey b \<and> tx_to t = address nb \<and>
           tx_value t = sint amt * SeeleToFan cfg \<and>
           (unat (nonce b) < 2 ^ 64 - 1 \<longrightarrow> unat (nonce b') = unat (nonce b) + 1) \<and>
           (0 <s amount b \<longrightarrow> sint (amount b') = sint (amount b) - sint amt)"
proof -
  obtain amt where a: "send_amount cfg e b = Inr amt"
    using send_amount_total [OF assms(1)] by blast
  obtain c where c: "getRandClient cfg e = Inr c"
    using getRandClient_total [of cfg e] assms(1) by (auto simp: reaches_submission_def)
  note s = send_succeeded [OF assms(2) a c]
  have n: "unat (nonce b) < 2 ^ 64 - 1 \<longrightarrow> unat (nonce b + 1) = unat (nonce b) + 1"
    by (simp add: unat_nonce_succ)
  have m: "0 <s amount b \<longrightarrow> sint (amount b - amt) = sint (amount b) - sint amt"
    using send_amount_diff [OF a] by simp
  show ?thesis using a s n m by simp
qed

theorem send_success_updates_witness:
  "reaches_submission cfg1 entry100 \<and> submission_ok env_ok \<and>
   send cfg1 env_ok entry100 =
     Inr (\<lparr>address = 12, privateKey = 22, amount = 30, shard = 1, nonce = 0, tx = Some 99, packed = False\<rparr>,
          \<lparr>address = 11, privateKey = 21, amount = 70, shard = 1, nonce = 5, tx = None, packed = False\<rparr>,
          Some \<lparr>tx_from = 21, tx_to = 12, tx_value = 3000000000, tx_price = 1, tx_nonce = 4, tx_hash = 99\<rparr>)"
proof -
  have r: "reaches_submission cfg1 entry100"
    by (simp add: reaches_submission_def cfg1_def entry100_def word_sless_alt)
  have k: "submission_ok env_ok"
    by (simp add: submission_ok_def env_ok_def)
  have a: "send_amount cfg1 env_ok entry100 = Inr 30"
    by (simp add: send_amount_def Intn_def cfg1_def entry100_def env_ok_def)
  from send_success_updates [OF r k] obtain nb b' t where
    s: "send cfg1 env_ok entry100 = Inr (nb, b', Some t)"
       "b' = entry100\<lparr>nonce := nonce entry100 + 1, amount := amount entry100 - 30\<rparr>"
    using a by auto
  have "send cfg1 env_ok entry100 =
     Inr (\<lparr>address = 12, privateKey = 22, amount = 30, shard = 1, nonce = 0, tx = Some 99, packed = False\<rparr>,
          \<lparr>address = 11, privateKey = 21, amount = 70, shard = 1, nonce = 5, tx = None, packed = False\<rparr>,
          Some \<lparr>tx_from = 21, tx_to = 12, tx_value = 3000000000, tx_price = 1, tx_nonce = 4, tx_hash = 99\<rparr>)"
    by (simp add: send_def send_amount_def Intn_def getRandClient_def GenerateTx_def SendTx_def
        cfg1_def entry100_def env_ok_def)
  with r k s show ?thesis by simp
qed

text \<open>
  C4, as the code has it. In mode 1 the amount drawn for a source entry with a
  positive amount is at least 0 and strictly below that amount: 0 can be drawn (the
  sending loop guards for it before it forwards the beneficiary), the amount itself
  cannot. The beneficiary carries the drawn amount.
\<close>

theorem mode1_amount_range:
  assumes "mode cfg = 1" and "0 <s amount b"
  shows "\<exists>amt. send_amount cfg e b = Inr amt \<and> 0 \<le> sint amt \<and> sint amt < sint (amount b) \<and>
               (\<forall>nb b' t. send cfg e b = Inr (nb, b', t) \<longrightarrow> amount nb = amt)"
proof -
  have "0 < sint (amount b)" using assms(2) by (simp add: word_sless_alt)
  then obtain amt where a: "send_amount cfg e b = Inr amt"
    using assms(1) by (auto simp: send_amount_def Intn_def)
  from send_amount_range [OF a assms(2)] assms(1)
  have r: "0 \<le> sint amt" "sint amt < sint (amount b)" by simp_all
  have "\<forall>nb b' t. send cfg e b = Inr (nb, b', t) \<longrightarrow> amount nb = amt"
    using a by (auto simp: send_def Let_def GenerateTx_def SendTx_def
        split: sum.splits option.splits if_splits)
  with a r show ?thesis by blast
qed

theorem mode1_amount_range_witness:
  "mode cfg1 = 1 \<and> 0 <s amount entry100 \<and> send_amount cfg1 env_ok entry100 = Inr 30 \<and>
   0 \<le> sint (30 :: go_int) \<and> sint (30 :: go_int) < sint (amount entry100)"
proof -
  have m: "mode cfg1 = 1" by (simp add: cfg1_def)
  have p: "0 <s amount entry100" by (simp add: entry100_def word_sless_alt)
  have a: "send_amount cfg1 env_ok entry100 = Inr 30"
    by (simp add: send_amount_def Intn_def cfg1_def entry100_def env_ok_def)
  from mode1_amount_range [OF m p, of env_ok] a m p show ?thesis by auto
qed

text \<open>
  The claim as stated asks for an amount strictly above 0. With a raw draw that is a
  multiple of the source's amount, \<^verbatim>\<open>rand.Intn\<close> returns 0 and a transaction of value 0
  is submitted.
\<close>

theorem mode1_amount_zero_counterexample:
  "mode cfg1 = 1 \<and>
   send cfg1 env_zero entry100 =
     Inr (\<lparr>address = 12, privateKey = 22, amount = 0, shard = 1, nonce = 0, tx = Some 99, packed = False\<rparr>,
          \<lparr>address = 11, privateKey = 21, amount = 100, shard = 1, nonce = 5, tx = None, packed = False\<rparr>,
          Some \<lparr>tx_from = 21, tx_to = 12, tx_value = 0, tx_price = 1, tx_nonce = 4, tx_hash = 99\<rparr>) \<and>
   \<not> (0 < sint (0 :: go_int))"
  by (simp add: send_def send_amount_def Intn_def getRandClient_def GenerateTx_def SendTx_def
      cfg1_def entry100_def env_zero_def env_ok_def)

section \<open>Properties of the rate limiter\<close>

lemma wrap64_small: "- (2 ^ 63) \<le> x \<Longrightarrow> x < 2 ^ 63 \<Longrightarrow> wrap64 x = x"
  by (simp add: wrap64_def sint_sbintrunc' signed_take_bit_int_eq_self)

lemma sint_succ_below:
  "sint (c :: 64 word) < sint (k :: 64 word) \<Longrightarrow> sint (c + 1) = sint c + 1"
proof -
  assume a: "sint c < sint k"
  have "sint k < 2 ^ 63" "- (2 ^ 63) \<le> sint c" using sint_amount_bounds by blast+
  with a have "- (2 ^ 63) \<le> sint c + 1" "sint c + 1 < 2 ^ 63" by simp_all
  then show ?thesis
    by (simp add: sint_word_ariths signed_take_bit_int_eq_self)
qed

text \<open>
  With a ceiling of at least 1 and a count within \<open>[0, k)\<close>, every window that a reset
  completes holds exactly \<open>k\<close> sends; \<open>c\<close> is the number of sends of the open window.
\<close>

lemma throttle_windows:
  assumes "0 <s k"
  shows "0 \<le>s c \<Longrightarrow> c <s k \<Longrightarrow>
         \<forall>w \<in> set (window_sizes (nat (sint c)) (map snd (throttle_run k ts (c, st)))). w = nat (sint k)"
proof (induction ts arbitrary: c st)
  case Nil
  then show ?case by simp
next
  case (Cons t ts)
  from Cons.prems have c: "0 \<le> sint c" "sint c < sint k"
    by (simp_all add: word_sle_eq word_sless_alt)
  note s = sint_succ_below [OF c(2)]
  show ?case
  proof (cases "c + 1 = k")
    case True
    have z: "0 \<le>s (0 :: 64 word)" "(0 :: 64 word) <s k" using assms by (simp_all add: word_sle_eq)
    have "Suc (nat (sint c)) = nat (sint k)" using True s c by auto
    with Cons.IH [OF z, of "snd t"] True show ?thesis
      by (simp add: throttle_def Let_def)
  next
    case False
    then have "sint (c + 1) \<noteq> sint k" by (auto dest: signed_word_eqI)
    with s c have n: "0 \<le>s c + 1" "c + 1 <s k" by (simp_all add: word_sle_eq word_sless_alt)
    have "Suc (nat (sint c)) = nat (sint (c + 1))" using s c by simp
    with Cons.IH [OF n, of st] False show ?thesis
      by (simp add: throttle_def Let_def)
  qed
qed

text \<open>
  C3. With a ceiling \<open>k\<close> of at least one send per second: when a send brings the
  running count to \<open>k\<close> less than a second after the window start, the worker asks
  \<^verbatim>\<open>time.Sleep\<close> for the rest of the second, which is more than nothing and at most the
  whole second, and then sets the count to 0 and the window start to the clock reading
  after the sleep; if the sleep lasted as long as asked, the window lasted a second.
  Counting from the worker's start, no window completed by a reset holds more than \<open>k\<close>
  sends.
\<close>

theorem throttle_suspends_and_resets:
  assumes "0 <s k" and "fst cs + 1 = k" and "snd cs \<le> now" and "now - snd cs < Second"
  shows "throttle k now now' cs = (Some (Second - (now - snd cs)), True, 0, now') \<and>
         0 < Second - (now - snd cs) \<and> Second - (now - snd cs) \<le> Second \<and>
         (now + (Second - (now - snd cs)) \<le> now' \<longrightarrow> snd cs + Second \<le> now') \<and>
         (\<forall>w \<in> set (window_sizes 0 (map snd (throttle_run k ts (0, st)))). w \<le> nat (sint k))"
proof -
  have "Sub now (snd cs) = now - snd cs"
    using assms(3,4) by (simp add: Sub_def Second_def maxDuration_def minDuration_def)
  moreover have "wrap64 (Second - (now - snd cs)) = Second - (now - snd cs)"
    using assms(3,4) by (simp add: wrap64_small Second_def)
  ultimately have t: "throttle k now now' cs = (Some (Second - (now - snd cs)), True, 0, now')"
    using assms(2,4) by (simp add: throttle_def Let_def)
  have z: "0 \<le>s (0 :: 64 word)" "(0 :: 64 word) <s k" using assms(1) by (simp_all add: word_sle_eq)
  from throttle_windows [OF assms(1) z, of ts st]
  have w: "\<forall>w \<in> set (window_sizes 0 (map snd (throttle_run k ts (0, st)))). w \<le> nat (sint k)"
    by simp
  from t w assms(3,4) show ?thesis by simp
qed

theorem throttle_suspends_and_resets_witness:
  "0 <s (2 :: go_int) \<and>
   throttle 2 950000000 1000000000 (1, 0) = (Some 50000000, True, 0, 1000000000) \<and>
   window_sizes 0 (map snd (throttle_run 2
      [(100, 100), (200, 1000000000), (1000000100, 1000000100), (1000000200, 2000000000), (5, 5)]
      (0, 0))) = [2, 2]"
proof -
  have k: "0 <s (2 :: go_int)" by (simp add: word_sless_alt)
  have c: "fst ((1 :: go_int), (0 :: time)) + 1 = 2" by simp
  have s: "snd ((1 :: go_int), (0 :: time)) \<le> 950000000" by simp
  have e: "950000000 - snd ((1 :: go_int), (0 :: time)) < Second" by (simp add: Second_def)
  have w: "window_sizes 0 (map snd (throttle_run 2
      [(100, 100), (200, 1000000000), (1000000100, 1000000100), (1000000200, 2000000000), (5, 5)]
      (0, 0))) = [2, 2]"
    by (simp add: throttle_def Sub_def Second_def maxDuration_def minDuration_def wrap64_def)
  from throttle_suspends_and_resets [OF k c s e, of 1000000000] k w show ?thesis
    by (simp add: Second_def)
qed

text \<open>
  C6, evaluated on the code. The window start is the package variable
  \<^verbatim>\<open>tpsStartTime\<close>, one for all workers. Worker 1 sends for the second time at 1.5 s,
  which brings its count to the ceiling of 2. Running alone, its window started at
  time 0, more than a second ago, and it does not sleep. Beside worker 0, the window
  start it reads is the one worker 0 wrote at 1 s, and it sleeps for half a second:
  worker 0's reset has replaced worker 1's window start.
\<close>

theorem shared_window_start_interferes:
  "l_count worker1_alone 1 = 1 \<and> l_count worker1_beside_worker0 1 = 1 \<and>
   g_tpsStartTime worker1_alone = 0 \<and> g_tpsStartTime worker1_beside_worker0 = 1000000000 \<and>
   fst (throttle_worker12 2 1 1500000000 1500000000 worker1_alone) = None \<and>
   fst (throttle_worker12 2 1 1500000000 2000000000 worker1_beside_worker0) = Some 500000000"
  by (simp add: worker1_alone_def worker1_beside_worker0_def throttle_worker12_def
      start_worker12_def throttle_def limiters0_def Sub_def Second_def maxDuration_def
      minDuration_def wrap64_def)

section \<open>Properties of the confirmation monitor\<close>

lemma classify_loop_filter:
  "classify_loop cfg heap rs inc pend = Inr (inc', pend') \<Longrightarrow>
     inc' = inc @ filter (\<lambda>r. status_of cfg heap r = Some (JString ''block'')) rs \<and>
     pend' = pend @ filter (\<lambda>r. status_of cfg heap r = Some (JString ''pool'')) rs"
proof (induction rs arbitrary: inc pend)
  case Nil
  then show ?case by simp
next
  case (Cons r rs)
  from Cons.prems obtain b where b: "heap r = Some b"
    by (auto split: option.splits)
  show ?case
  proof (cases "tx b")
    case None
    then have st: "status_of cfg heap r = None" using b by (simp add: status_of_def)
    from Cons.prems b None have "classify_loop cfg heap rs inc pend = Inr (inc', pend')" by simp
    from Cons.IH [OF this] st show ?thesis by simp
  next
    case (Some h)
    with Cons.prems b obtain result where g: "getTx cfg (address b) h = Inr result"
      by (auto split: sum.splits)
    have st: "status_of cfg heap r = map_of result ''status''"
      using b Some g by (simp add: status_of_def)
    consider (blk) "map_of result ''status'' = Some (JString ''block'')"
      | (pool) "map_of result ''status'' = Some (JString ''pool'')"
      | (other) "map_of result ''status'' \<noteq> Some (JString ''block'')"
                "map_of result ''status'' \<noteq> Some (JString ''pool'')"
      by blast
    then show ?thesis
    proof cases
      case blk
      then have "result \<noteq> []" by auto
      with Cons.prems b Some g blk
      have "classify_loop cfg heap rs (inc @ [r]) pend = Inr (inc', pend')" by simp
      from Cons.IH [OF this] st blk show ?thesis by simp
    next
      case pool
      then have "result \<noteq> []" by auto
      with Cons.prems b Some g pool
      have "classify_loop cfg heap rs inc (pend @ [r]) = Inr (inc', pend')" by simp
      from Cons.IH [OF this] st pool show ?thesis by simp
    next
      case other
      with Cons.prems b Some g
      have "classify_loop cfg heap rs inc pend = Inr (inc', pend')" by (simp split: if_splits)
      from Cons.IH [OF this] st other show ?thesis by simp
    qed
  qed
qed

lemma classify_loop_total:
  "list_all (\<lambda>r. case heap r of None \<Rightarrow> False
       | Some b \<Rightarrow> tx b = None \<or> map_of (clientList cfg) (Shard cfg (address b)) \<noteq> None) rs \<Longrightarrow>
   \<exists>res. classify_loop cfg heap rs inc pend = Inr res"
proof (induction rs arbitrary: inc pend)
  case Nil
  then show ?case by simp
next
  case (Cons r rs)
  from Cons.prems obtain b where b: "heap r = Some b"
    and c: "tx b = None \<or> map_of (clientList cfg) (Shard cfg (address b)) \<noteq> None"
    and rest: "list_all (\<lambda>r. case heap r of None \<Rightarrow> False
       | Some b \<Rightarrow> tx b = None \<or> map_of (clientList cfg) (Shard cfg (address b)) \<noteq> None) rs"
    by (auto split: option.splits)
  note ih = Cons.IH [OF rest]
  show ?case
  proof (cases "tx b")
    case None
    with b ih [of inc pend] show ?thesis by simp
  next
    case (Some h)
    with c obtain cl where cl: "map_of (clientList cfg) (Shard cfg (address b)) = Some cl"
      by auto
    then have "\<exists>result. getTx cfg (address b) h = Inr result"
      by (cases "GetTransactionByHash cfg cl h") (simp add: getTx_def getClient_def)
    then obtain result where g: "getTx cfg (address b) h = Inr result" by blast
    show ?thesis
      using b Some g ih [of "inc @ [r]" pend] ih [of inc "pend @ [r]"] ih [of inc pend]
      by simp
  qed
qed

lemma checkPack_tick_classifies:
  assumes "queue_ok cfg s"
  shows "\<exists>s'. checkPack_tick cfg now s = Inr s' \<and>
           toPackedBalanceList s' =
             filter (\<lambda>r. status_of cfg (objs s) r = Some (JString ''pool'')) (toPackedBalanceList s) \<and>
           map_of (toConfirmBalanceList s') now =
             Some (filter (\<lambda>r. status_of cfg (objs s) r = Some (JString ''block'')) (toPackedBalanceList s))"
proof -
  from classify_loop_total [where heap = "objs s" and cfg = cfg and rs = "toPackedBalanceList s"
      and inc = "[]" and pend = "[]"] assms
  obtain inc pend where c: "classify_loop cfg (objs s) (toPackedBalanceList s) [] [] = Inr (inc, pend)"
    by (auto simp: queue_ok_def)
  from classify_loop_filter [OF c] c show ?thesis
    by (simp add: checkPack_tick_def getIncludedAndPendingBalance_def)
qed

lemma status_of_entry:
  "heap r = Some b \<Longrightarrow> tx b = Some h \<Longrightarrow> getTx cfg (address b) h = Inr result \<Longrightarrow>
   status_of cfg heap r = map_of result ''status''"
  by (simp add: status_of_def)

lemma status_of_no_tx: "heap r = Some b \<Longrightarrow> tx b = None \<Longrightarrow> status_of cfg heap r = None"
  by (simp add: status_of_def)

text \<open>
  C7. A poll classifies every queued entry by the status of the ledger's answer for its
  transaction: \<^verbatim>\<open>"block"\<close> puts the entry into the bucket keyed by the current time and
  takes it out of the queue; \<^verbatim>\<open>"pool"\<close> keeps it in the queue and out of the bucket; any
  other answer, an empty one included, leaves it in neither. An entry without a
  transaction hash is not queried and is left in neither.
\<close>

theorem poll_classification:
  assumes "queue_ok cfg s"
  shows "\<exists>s' included. checkPack_tick cfg now s = Inr s' \<and>
     map_of (toConfirmBalanceList s') now = Some included \<and>
     (\<forall>r \<in> set (toPackedBalanceList s). \<forall>b. objs s r = Some b \<longrightarrow>
        (tx b = None \<longrightarrow> r \<notin> set included \<and> r \<notin> set (toPackedBalanceList s')) \<and>
        (\<forall>h result. tx b = Some h \<and> getTx cfg (address b) h = Inr result \<longrightarrow>
           (r \<in> set included \<longleftrightarrow> map_of result ''status'' = Some (JString ''block'')) \<and>
           (r \<in> set (toPackedBalanceList s') \<longleftrightarrow> map_of result ''status'' = Some (JString ''pool'')) \<and>
           (result = [] \<or> (map_of result ''status'' \<noteq> Some (JString ''block'') \<and>
                            map_of result ''status'' \<noteq> Some (JString ''pool'')) \<longrightarrow>
              r \<notin> set included \<and> r \<notin> set (toPackedBalanceList s'))))"
proof -
  from checkPack_tick_classifies [OF assms, of now] obtain s' where
    t: "checkPack_tick cfg now s = Inr s'" and
    q: "toPackedBalanceList s' =
          filter (\<lambda>r. status_of cfg (objs s) r = Some (JString ''pool'')) (toPackedBalanceList s)" and
    i: "map_of (toConfirmBalanceList s') now =
          Some (filter (\<lambda>r. status_of cfg (objs s) r = Some (JString ''block'')) (toPackedBalanceList s))"
    by blast
  show ?thesis
    apply (rule exI [of _ s'])
    apply (rule exI [of _ "filter (\<lambda>r. status_of cfg (objs s) r = Some (JString ''block'')) (toPackedBalanceList s)"])
    using t q i by (auto simp: status_of_entry status_of_no_tx)
qed

theorem poll_classification_witness:
  "queue_ok cfg1 state_queued \<and> toPackedBalanceList state_queued = [2] \<and>
   getTx cfg1 (address beneficiary30) 99 = Inr [(''status'', JString ''block'')] \<and>
   poll_outcome cfg1 30000000000 state_queued = Some ([], [(30000000000, [2])])"
proof -
  have q: "queue_ok cfg1 state_queued"
    by (simp add: queue_ok_def state_queued_def StartSend_def heap1_def beneficiary30_def cfg1_def)
  have p: "poll_outcome cfg1 30000000000 state_queued = Some ([], [(30000000000, [2])])"
    by (simp add: poll_outcome_def checkPack_tick_def getIncludedAndPendingBalance_def getTx_def
        getClient_def cfg1_def state_queued_def StartSend_def heap1_def beneficiary30_def)
  have g: "getTx cfg1 (address beneficiary30) 99 = Inr [(''status'', JString ''block'')]"
    by (simp add: getTx_def getClient_def cfg1_def beneficiary30_def)
  from poll_classification [OF q, of 30000000000] q p g show ?thesis
    by (simp add: state_queued_def)
qed

text \<open>
  C5, as the code has it. \<^verbatim>\<open>getTx\<close> returns the result that came with the error, and
  the poll classifies the entry by that result as it does after a successful query: the
  entry stays in the queue exactly when the result has status \<^verbatim>\<open>"pool"\<close>, goes to the
  bucket exactly when it has status \<^verbatim>\<open>"block"\<close>, and with an empty result it is in neither.
\<close>

theorem query_error_classified_by_result:
  assumes "queue_ok cfg s" and "r \<in> set (toPackedBalanceList s)" and "objs s r = Some b"
    and "tx b = Some h" and "getClient cfg (address b) = Inr c"
    and "GetTransactionByHash cfg c h = (result, True)"
  shows "\<exists>s' included. checkPack_tick cfg now s = Inr s' \<and>
     map_of (toConfirmBalanceList s') now = Some included \<and>
     getTx cfg (address b) h = Inr result \<and>
     (r \<in> set (toPackedBalanceList s') \<longleftrightarrow> map_of result ''status'' = Some (JString ''pool'')) \<and>
     (r \<in> set included \<longleftrightarrow> map_of result ''status'' = Some (JString ''block'')) \<and>
     (result = [] \<longrightarrow> r \<notin> set (toPackedBalanceList s') \<and> r \<notin> set included)"
proof -
  have g: "getTx cfg (address b) h = Inr result"
    using assms(5,6) by (simp add: getTx_def)
  have st: "status_of cfg (objs s) r = map_of result ''status''"
    using assms(3,4) g by (simp add: status_of_def)
  from checkPack_tick_classifies [OF assms(1), of now] obtain s' where
    t: "checkPack_tick cfg now s = Inr s'" and
    q: "toPackedBalanceList s' =
          filter (\<lambda>r. status_of cfg (objs s) r = Some (JString ''pool'')) (toPackedBalanceList s)" and
    i: "map_of (toConfirmBalanceList s') now =
          Some (filter (\<lambda>r. status_of cfg (objs s) r = Some (JString ''block'')) (toPackedBalanceList s))"
    by blast
  show ?thesis
    apply (rule exI [of _ s'])
    apply (rule exI [of _ "filter (\<lambda>r. status_of cfg (objs s) r = Some (JString ''block'')) (toPackedBalanceList s)"])
    using t q i g st assms(2) by auto
qed

theorem query_error_classified_by_result_witness:
  "queue_ok cfg_pool_error state_queued \<and> 2 \<in> set (toPackedBalanceList state_queued) \<and>
   objs state_queued 2 = Some beneficiary30 \<and> tx beneficiary30 = Some 99 \<and>
   getClient cfg_pool_error (address beneficiary30) = Inr 7 \<and>
   GetTransactionByHash cfg_pool_error 7 99 = ([(''status'', JString ''pool'')], True) \<and>
   poll_outcome cfg_pool_error 30000000000 state_queued = Some ([2], [(30000000000, [])])"
proof -
  have q: "queue_ok cfg_pool_error state_queued"
    by (simp add: queue_ok_def state_queued_def StartSend_def heap1_def beneficiary30_def
        cfg_pool_error_def cfg1_def)
  have m: "2 \<in> set (toPackedBalanceList state_queued)"
    by (simp add: state_queued_def)
  have o: "objs state_queued 2 = Some beneficiary30"
    by (simp add: state_queued_def StartSend_def)
  have x: "tx beneficiary30 = Some 99" by (simp add: beneficiary30_def)
  have c: "getClient cfg_pool_error (address beneficiary30) = Inr 7"
    by (simp add: getClient_def cfg_pool_error_def cfg1_def beneficiary30_def)
  have e: "GetTransactionByHash cfg_pool_error 7 99 = ([(''status'', JString ''pool'')], True)"
    by (simp add: cfg_pool_error_def)
  have p: "poll_outcome cfg_pool_error 30000000000 state_queued = Some ([2], [(30000000000, [])])"
    by (simp add: poll_outcome_def checkPack_tick_def getIncludedAndPendingBalance_def getTx_def
        getClient_def cfg_pool_error_def cfg1_def state_queued_def StartSend_def heap1_def
        beneficiary30_def)
  from query_error_classified_by_result [OF q m o x c e, of 30000000000] q m o x c e p
  show ?thesis by simp
qed

text \<open>
  The claim as stated keeps the entry queued after a query error. A query that fails
  with an empty result removes the entry from the queue and puts it in no bucket.
\<close>

theorem query_error_drops_entry_counterexample:
  "toPackedBalanceList state_queued = [2] \<and>
   objs state_queued 2 = Some beneficiary30 \<and> tx beneficiary30 = Some 99 \<and>
   getClient cfg_query_error (address beneficiary30) = Inr 7 \<and>
   GetTransactionByHash cfg_query_error 7 99 = ([], True) \<and>
   poll_outcome cfg_query_error 30000000000 state_queued = Some ([], [(30000000000, [])])"
  by (simp add: poll_outcome_def checkPack_tick_def getIncludedAndPendingBalance_def getTx_def
      getClient_def cfg_query_error_def cfg1_def state_queued_def StartSend_def heap1_def
      beneficiary30_def)

section \<open>Properties of the worker loop\<close>

lemma append_slice_elems:
  assumes "wf_slice s sl" and "append_slice s sl vs = (s', sl')"
  shows "elems s' sl' = elems s sl @ vs \<and> wf_slice s' sl' \<and> objs s' = objs s \<and>
         next_ref s' = next_ref s"
proof (cases "s_len sl + length vs \<le> s_cap sl")
  case True
  with assms(2) have s': "s' = s\<lparr>arrs := (arrs s)(s_arr sl :=
               take (s_len sl) (arrs s (s_arr sl)) @ vs @ drop (s_len sl + length vs) (arrs s (s_arr sl)))\<rparr>"
    and sl': "sl' = sl\<lparr>s_len := s_len sl + length vs\<rparr>"
    by (simp_all add: append_slice_def Let_def)
  from assms(1) True have l: "s_len sl \<le> length (arrs s (s_arr sl))"
    "s_len sl + length vs \<le> length (arrs s (s_arr sl))"
    by (simp_all add: wf_slice_def)
  show ?thesis
    unfolding s' sl' using l assms(1) True by (simp add: elems_def wf_slice_def)
next
  case False
  with assms(2) have s': "s' = s\<lparr>arrs := (arrs s)(next_arr s :=
        elems s sl @ vs @ replicate (max (s_len sl + length vs) (2 * s_cap sl) - (s_len sl + length vs)) 0),
            next_arr := Suc (next_arr s)\<rparr>"
    and sl': "sl' = \<lparr>s_arr = next_arr s, s_len = s_len sl + length vs,
                    s_cap = max (s_len sl + length vs) (2 * s_cap sl)\<rparr>"
    by (simp_all add: append_slice_def Let_def)
  from assms(1) have l: "length (elems s sl) = s_len sl"
    by (simp add: elems_def wf_slice_def)
  show ?thesis
    unfolding s' sl' using l by (simp add: elems_def wf_slice_def)
qed

lemma keep_positive_all:
  assumes "wf_slice s nxt" and "list_all (positive (objs s)) rs"
  shows "\<exists>s' nxt'. keep_positive rs s nxt = Inr (s', nxt') \<and> elems s' nxt' = elems s nxt @ rs \<and>
           objs s' = objs s \<and> next_ref s' = next_ref s"
  using assms
proof (induction rs arbitrary: s nxt)
  case Nil
  then show ?case by simp
next
  case (Cons r rs)
  from Cons.prems(2) have pr: "positive (objs s) r" and rest: "list_all (positive (objs s)) rs"
    by simp_all
  from pr obtain b where b: "objs s r = Some b" "0 <s amount b"
    by (auto simp: positive_def split: option.splits)
  obtain s1 nxt1 where a: "append_slice s nxt [r] = (s1, nxt1)" by (cases "append_slice s nxt [r]")
  note e = append_slice_elems [OF Cons.prems(1) a]
  from e rest have r1: "list_all (positive (objs s1)) rs" by simp
  from e have w1: "wf_slice s1 nxt1" by simp
  from Cons.IH [OF w1 r1] obtain s' nxt' where
    k: "keep_positive rs s1 nxt1 = Inr (s', nxt')" "elems s' nxt' = elems s1 nxt1 @ rs"
       "objs s' = objs s1" "next_ref s' = next_ref s1" by blast
  have "keep_positive (r # rs) s nxt = Inr (s', nxt')" using b a k(1) by simp
  with k e show ?case by simp
qed

lemma drop_exhausted_all:
  assumes "list_all (positive (objs s)) (pool s)"
  shows "\<exists>s'. drop_exhausted s = Inr s' \<and> pool s' = pool s \<and> objs s' = objs s \<and>
              next_ref s' = next_ref s"
proof -
  obtain s0 nxt where m: "make_slice s 0 = (s0, nxt)" by (cases "make_slice s 0")
  then have w: "wf_slice s0 nxt" and o: "objs s0 = objs s" "next_ref s0 = next_ref s"
    and e: "elems s0 nxt = []"
    by (auto simp: make_slice_def wf_slice_def elems_def)
  from assms o have p: "list_all (positive (objs s0)) (pool s)" by simp
  from keep_positive_all [OF w p] obtain s' nxt' where
    k: "keep_positive (pool s) s0 nxt = Inr (s', nxt')" "elems s' nxt' = elems s0 nxt @ pool s"
       "objs s' = objs s0" "next_ref s' = next_ref s0" by blast
  have "drop_exhausted s = Inr (s'\<lparr>w_balanceList := nxt'\<rparr>)"
    using m k(1) by (simp add: drop_exhausted_def pool_def)
  moreover have "pool (s'\<lparr>w_balanceList := nxt'\<rparr>) = pool s"
    using k(2) e by (simp add: pool_def elems_def)
  ultimately show ?thesis using k o by simp
qed


lemma send_mode1_keeps_positive:
  assumes "mode cfg = 1" and "clientList cfg \<noteq> []" and "0 <s amount b"
  shows "\<exists>nb b' t. send cfg e b = Inr (nb, b', t) \<and> 1 \<le> sint (amount b') \<and>
           sint (amount nb) < sint (amount b)"
proof -
  have r: "reaches_submission cfg b" using assms by (simp add: reaches_submission_def)
  obtain amt where a: "send_amount cfg e b = Inr amt"
    using send_amount_total [OF r] by blast
  obtain c where c: "getRandClient cfg e = Inr c"
    using getRandClient_total [OF assms(2)] by blast
  from send_amount_range [OF a assms(3)] assms(1)
  have lt: "sint amt < sint (amount b)" by simp
  have pos: "1 \<le> sint (amount b)" using assms(3) by (simp add: word_sless_alt)
  show ?thesis
  proof (cases "submission_ok e")
    case True
    have "1 \<le> sint (amount b - amt)"
      using send_amount_diff [OF a assms(3)] lt by simp
    with send_succeeded [OF True a c] lt show ?thesis by simp
  next
    case False
    with send_failed [OF False a c] pos lt show ?thesis by simp
  qed
qed

lemma loop_body_sound:
  assumes "mode cfg = 1" and "clientList cfg \<noteq> []" and "entries_sound s P" and "r \<in> P"
  shows "\<exists>s'. loop_body cfg threadNum e r s = Inr s' \<and> entries_sound s' P \<and>
              arrs s' = arrs s \<and> w_balanceList s' = w_balanceList s"
proof -
  from assms(3,4) obtain b where b: "objs s r = Some b" "0 <s amount b" and f: "r < next_ref s"
    by (auto simp: entries_sound_def positive_def split: option.splits)
  from send_mode1_keeps_positive [OF assms(1,2) b(2), of e] obtain nb b' t where
    s: "send cfg e b = Inr (nb, b', t)" and p: "1 \<le> sint (amount b')" by blast
  define s1 where "s1 = s\<lparr>objs := (objs s)(r \<mapsto> b', next_ref s \<mapsto> nb), next_ref := Suc (next_ref s),
                          ledger := ledger s @ (case t of None \<Rightarrow> [] | Some x \<Rightarrow> [x])\<rparr>"
  define s2 where "s2 = (if mode cfg = 1 \<and> 0 <s amount nb then s1\<lparr>txCh := txCh s1 @ [next_ref s]\<rparr> else s1)"
  define s3 where "s3 = s2\<lparr>limiter := snd (throttle_worker12 (tps cfg) threadNum (now_elapse e)
                            (now_reset e) (limiter s2))\<rparr>"
  have l: "loop_body cfg threadNum e r s = Inr s3"
    using b s by (simp add: loop_body_def Let_def s1_def s2_def s3_def)
  have o: "objs s3 = (objs s)(r \<mapsto> b', next_ref s \<mapsto> nb)" "next_ref s3 = Suc (next_ref s)"
    "arrs s3 = arrs s" "w_balanceList s3 = w_balanceList s"
    by (simp_all add: s1_def s2_def s3_def)
  have "entries_sound s3 P"
    unfolding entries_sound_def
  proof
    fix q assume q: "q \<in> P"
    with assms(3) have qs: "q < next_ref s" "positive (objs s) q" by (simp_all add: entries_sound_def)
    have "positive (objs s3) q"
    proof (cases "q = r")
      case True
      with o f p show ?thesis by (simp add: positive_def word_sless_alt)
    next
      case False
      with o qs show ?thesis by (simp add: positive_def)
    qed
    with qs o show "q < next_ref s3 \<and> positive (objs s3) q" by simp
  qed
  with l o show ?thesis by simp
qed

lemma send_loop_sound:
  assumes "mode cfg = 1" and "clientList cfg \<noteq> []"
  shows "entries_sound s P \<Longrightarrow> set rs \<subseteq> P \<Longrightarrow>
         \<exists>s'. send_loop cfg threadNum envs i rs s = Inr s' \<and> entries_sound s' P \<and>
              arrs s' = arrs s \<and> w_balanceList s' = w_balanceList s"
proof (induction rs arbitrary: s i)
  case Nil
  then show ?case by simp
next
  case (Cons r rs)
  from Cons.prems have "r \<in> P" "set rs \<subseteq> P" by simp_all
  from loop_body_sound [OF assms Cons.prems(1) \<open>r \<in> P\<close>, of threadNum "envs i"] obtain s1 where
    l: "loop_body cfg threadNum (envs i) r s = Inr s1" "entries_sound s1 P"
       "arrs s1 = arrs s" "w_balanceList s1 = w_balanceList s" by blast
  from Cons.IH [OF l(2) \<open>set rs \<subseteq> P\<close>, of "Suc i"] obtain s' where
    "send_loop cfg threadNum envs (Suc i) rs s1 = Inr s'" "entries_sound s' P"
    "arrs s' = arrs s1" "w_balanceList s' = w_balanceList s1" by blast
  with l show ?case by simp
qed

lemma pool_sound_entries: "pool_sound s = entries_sound s (set (pool s))"
  by (auto simp: pool_sound_def entries_sound_def list_all_iff)

lemma worker_pass_sound:
  assumes "mode cfg = 1" and "clientList cfg \<noteq> []" and "pool_sound s"
  shows "\<exists>s'. worker_pass cfg threadNum envs s = Inr s' \<and> pool_sound s' \<and> pool s' = pool s"
proof -
  from assms(3) have e: "entries_sound s (set (pool s))" by (simp add: pool_sound_entries)
  from send_loop_sound [OF assms(1,2) e, of "pool s" threadNum envs 0] obtain s1 where
    l: "send_loop cfg threadNum envs 0 (pool s) s = Inr s1" "entries_sound s1 (set (pool s))"
       "arrs s1 = arrs s" "w_balanceList s1 = w_balanceList s" by auto
  have p1: "pool s1 = pool s" using l(3,4) by (simp add: pool_def elems_def)
  with l(2) have "list_all (positive (objs s1)) (pool s1)"
    by (simp add: entries_sound_def list_all_iff)
  from drop_exhausted_all [OF this] obtain s' where
    d: "drop_exhausted s1 = Inr s'" "pool s' = pool s1" "objs s' = objs s1" "next_ref s' = next_ref s1"
    by blast
  have "worker_pass cfg threadNum envs s = Inr s'"
    using l(1) d(1) by (simp add: worker_pass_def pool_def)
  moreover have "pool_sound s'"
    using l(2) d p1 by (simp add: pool_sound_entries entries_sound_def)
  ultimately show ?thesis using d(2) p1 by simp
qed

lemma worker_passes_sound:
  assumes "mode cfg = 1" and "clientList cfg \<noteq> []"
  shows "pool_sound s \<Longrightarrow>
         \<exists>s'. worker_passes cfg threadNum envss j n s = Inr s' \<and> pool_sound s' \<and> pool s' = pool s"
proof (induction n arbitrary: s j)
  case 0
  then show ?case by simp
next
  case (Suc n)
  from worker_pass_sound [OF assms Suc.prems, of threadNum "envss j"] obtain s1 where
    w: "worker_pass cfg threadNum (envss j) s = Inr s1" "pool_sound s1" "pool s1 = pool s" by blast
  from Suc.IH [OF w(2), of "Suc j"] obtain s' where
    "worker_passes cfg threadNum envss (Suc j) n s1 = Inr s'" "pool_sound s'" "pool s' = pool s1"
    by blast
  with w show ?case by simp
qed

lemma StartSend_pool_sound:
  assumes "\<forall>r \<in> set balanceList. r < fresh"
  shows "pool_sound (StartSend heap fresh (initAccount_result heap balanceList))"
  using assms
  by (auto simp: pool_sound_def pool_def elems_def StartSend_def initAccount_result_def list_all_iff)

lemma send_mode1_faults:
  "mode cfg = 1 \<Longrightarrow> \<not> 0 <s amount b \<Longrightarrow> send cfg e b = Inl IntnInvalidArgument"
  by (simp add: send_def send_amount_def Intn_def word_sless_alt)

lemma append_slice_frame:
  assumes "append_slice s sl vs = (s', sl')" and "wf_slice s sl" and "s_arr sl < next_arr s"
  shows "next_arr s \<le> next_arr s'" and "s_arr sl' < next_arr s'"
    and "s_arr sl' = s_arr sl \<or> s_arr sl' = next_arr s" and "s_len sl \<le> s_len sl'"
    and "\<And>a. a \<noteq> s_arr sl \<Longrightarrow> a < next_arr s \<Longrightarrow> arrs s' a = arrs s a"
    and "\<And>n. n \<le> s_len sl \<Longrightarrow> take n (arrs s' (s_arr sl)) = take n (arrs s (s_arr sl))"
    and "w_balanceList s' = w_balanceList s" and "m_balanceList s' = m_balanceList s"
    and "toConfirmBalanceList s' = toConfirmBalanceList s"
proof -
  have l: "s_len sl \<le> length (arrs s (s_arr sl))" using assms(2) by (simp add: wf_slice_def)
  show "next_arr s \<le> next_arr s'" "s_arr sl' < next_arr s'"
    "s_arr sl' = s_arr sl \<or> s_arr sl' = next_arr s" "s_len sl \<le> s_len sl'"
    "w_balanceList s' = w_balanceList s" "m_balanceList s' = m_balanceList s"
    "toConfirmBalanceList s' = toConfirmBalanceList s"
    using assms by (auto simp: append_slice_def Let_def split: if_splits)
  show "\<And>a. a \<noteq> s_arr sl \<Longrightarrow> a < next_arr s \<Longrightarrow> arrs s' a = arrs s a"
    using assms by (auto simp: append_slice_def Let_def split: if_splits)
  show "\<And>n. n \<le> s_len sl \<Longrightarrow> take n (arrs s' (s_arr sl)) = take n (arrs s (s_arr sl))"
    using assms l by (auto simp: append_slice_def Let_def min_def split: if_splits)
qed

lemma confirm_sweep_frame:
  "share_ok s \<Longrightarrow>
     share_ok (confirm_sweep clock i bs s) \<and> pool (confirm_sweep clock i bs s) = pool s \<and>
     objs (confirm_sweep clock i bs s) = objs s \<and> next_ref (confirm_sweep clock i bs s) = next_ref s"
proof (induction bs arbitrary: s i)
  case Nil
  then show ?case by simp
next
  case (Cons kv bs)
  show ?case
  proof (cases "Sub (clock i) (fst kv) > confirmTime")
    case False
    with Cons show ?thesis by simp
  next
    case True
    obtain s1 m1 where a: "append_slice s (m_balanceList s) (snd kv) = (s1, m1)"
      by (cases "append_slice s (m_balanceList s) (snd kv)")
    from Cons.prems have w: "wf_slice s (m_balanceList s)" and f: "s_arr (m_balanceList s) < next_arr s"
      and fw: "s_arr (w_balanceList s) < next_arr s"
      and sh: "s_arr (w_balanceList s) = s_arr (m_balanceList s) \<longrightarrow>
                 s_len (w_balanceList s) \<le> s_len (m_balanceList s)"
      by (simp_all add: share_ok_def)
    note fr = append_slice_frame [OF a w f]
    note el = append_slice_elems [OF w a]
    define s2 where "s2 = s1\<lparr>m_balanceList := m1, toConfirmBalanceList :=
                     filter (\<lambda>kv'. fst kv' \<noteq> fst kv) (toConfirmBalanceList s1)\<rparr>"
    have c: "confirm_sweep clock i (kv # bs) s = confirm_sweep clock (Suc i) bs s2"
      using True a by (simp add: s2_def)
    have p: "pool s2 = pool s"
    proof (cases "s_arr (w_balanceList s) = s_arr (m_balanceList s)")
      case True
      with sh have "s_len (w_balanceList s) \<le> s_len (m_balanceList s)" by simp
      from fr(6) [OF this] True fr(7) show ?thesis
        by (simp add: pool_def elems_def s2_def)
    next
      case False
      from fr(5) [OF False fw] fr(7) show ?thesis
        by (simp add: pool_def elems_def s2_def)
    qed
    have "share_ok s2"
      using el fr fw sh
      by (auto simp: share_ok_def s2_def wf_slice_def)
    from Cons.IH [OF this, of "Suc i"] c p el show ?thesis
      by (simp add: s2_def)
  qed
qed


lemma loop_body_frame:
  "loop_body cfg threadNum e r s = Inr s' \<Longrightarrow>
     arrs s' = arrs s \<and> next_arr s' = next_arr s \<and> w_balanceList s' = w_balanceList s \<and>
     m_balanceList s' = m_balanceList s"
  by (auto simp: loop_body_def Let_def split: option.splits sum.splits prod.splits)

lemma send_loop_frame:
  "send_loop cfg threadNum envs i rs s = Inr s' \<Longrightarrow>
     arrs s' = arrs s \<and> next_arr s' = next_arr s \<and> w_balanceList s' = w_balanceList s \<and>
     m_balanceList s' = m_balanceList s"
proof (induction rs arbitrary: s i)
  case Nil
  then show ?case by simp
next
  case (Cons r rs)
  from Cons.prems obtain s1 where l: "loop_body cfg threadNum (envs i) r s = Inr s1"
    and r: "send_loop cfg threadNum envs (Suc i) rs s1 = Inr s'"
    by (auto split: sum.splits)
  from loop_body_frame [OF l] Cons.IH [OF r] show ?case by simp
qed

lemma keep_positive_frame:
  "keep_positive rs s nxt = Inr (s', nxt') \<Longrightarrow> wf_slice s nxt \<Longrightarrow> A \<le> s_arr nxt \<Longrightarrow>
   s_arr nxt < next_arr s \<Longrightarrow>
     elems s' nxt' = elems s nxt @ filter (positive (objs s)) rs \<and> A \<le> s_arr nxt' \<and>
     s_arr nxt' < next_arr s' \<and> next_arr s \<le> next_arr s' \<and> (\<forall>a < A. arrs s' a = arrs s a) \<and>
     m_balanceList s' = m_balanceList s \<and> objs s' = objs s \<and> next_ref s' = next_ref s"
proof (induction rs arbitrary: s nxt)
  case Nil
  then show ?case by simp
next
  case (Cons r rs)
  from Cons.prems(1) obtain b where b: "objs s r = Some b" by (auto split: option.splits)
  show ?case
  proof (cases "0 <s amount b")
    case False
    with b have n: "\<not> positive (objs s) r" by (simp add: positive_def)
    from Cons.prems(1) b False have "keep_positive rs s nxt = Inr (s', nxt')" by simp
    from Cons.IH [OF this Cons.prems(2,3,4)] n show ?thesis by simp
  next
    case True
    with b have p: "positive (objs s) r" by (simp add: positive_def)
    obtain s1 nxt1 where a: "append_slice s nxt [r] = (s1, nxt1)" by (cases "append_slice s nxt [r]")
    note el = append_slice_elems [OF Cons.prems(2) a]
    note fr = append_slice_frame [OF a Cons.prems(2,4)]
    from Cons.prems(1) b True a have k: "keep_positive rs s1 nxt1 = Inr (s', nxt')" by simp
    have w1: "wf_slice s1 nxt1" using el by simp
    have a1: "A \<le> s_arr nxt1" using fr(3) Cons.prems(3,4) by auto
    note ih = Cons.IH [OF k w1 a1 fr(2)]
    have "\<forall>a < A. arrs s1 a = arrs s a"
      using fr(5) Cons.prems(3,4) by auto
    with ih el fr p show ?thesis by simp
  qed
qed

lemma drop_exhausted_frame:
  assumes "drop_exhausted s = Inr s'" and "share_ok s"
  shows "share_ok s' \<and> pool s' = filter (positive (objs s)) (pool s) \<and> objs s' = objs s \<and>
         next_ref s' = next_ref s"
proof -
  define s0 where "s0 = s\<lparr>arrs := (arrs s)(next_arr s := replicate 0 0), next_arr := Suc (next_arr s)\<rparr>"
  define nxt where "nxt = \<lparr>s_arr = next_arr s, s_len = 0, s_cap = 0\<rparr>"
  have m: "make_slice s 0 = (s0, nxt)" by (simp add: make_slice_def s0_def nxt_def)
  from assms(1) m obtain s1 nxt1 where
    k: "keep_positive (pool s) s0 nxt = Inr (s1, nxt1)" and s': "s' = s1\<lparr>w_balanceList := nxt1\<rparr>"
    by (auto simp: drop_exhausted_def pool_def split: sum.splits)
  have w: "wf_slice s0 nxt" by (simp add: wf_slice_def s0_def nxt_def)
  have a: "next_arr s \<le> s_arr nxt" and f: "s_arr nxt < next_arr s0" by (simp_all add: s0_def nxt_def)
  from keep_positive_frame [OF k w a f]
  have e: "elems s1 nxt1 = elems s0 nxt @ filter (positive (objs s0)) (pool s)"
    and g: "next_arr s \<le> s_arr nxt1" "s_arr nxt1 < next_arr s1" "next_arr s0 \<le> next_arr s1"
    and u: "\<forall>a < next_arr s. arrs s1 a = arrs s0 a"
    and o: "m_balanceList s1 = m_balanceList s0" "objs s1 = objs s0" "next_ref s1 = next_ref s0"
    by simp_all
  from assms(2) have mo: "wf_slice s (m_balanceList s)" "s_arr (m_balanceList s) < next_arr s"
    by (simp_all add: share_ok_def)
  have "arrs s1 (s_arr (m_balanceList s)) = arrs s (s_arr (m_balanceList s))"
    using u mo(2) by (simp add: s0_def)
  then have "share_ok s'"
    using mo g o by (auto simp: share_ok_def wf_slice_def s' s0_def)
  moreover have "pool s' = filter (positive (objs s)) (pool s)"
    using e by (simp add: pool_def s' elems_def s0_def nxt_def)
  ultimately show ?thesis using o by (simp add: s' s0_def)
qed

lemma worker_pass_frame:
  assumes "worker_pass cfg threadNum envs s = Inr s'" and "share_ok s"
  shows "share_ok s' \<and> set (pool s') \<subseteq> set (pool s)"
proof -
  from assms(1) obtain s1 where l: "send_loop cfg threadNum envs 0 (pool s) s = Inr s1"
    and d: "drop_exhausted s1 = Inr s'"
    by (auto simp: worker_pass_def pool_def split: sum.splits)
  note fr = send_loop_frame [OF l]
  from fr assms(2) have sh: "share_ok s1" by (simp add: share_ok_def wf_slice_def)
  from fr have p: "pool s1 = pool s" by (simp add: pool_def elems_def)
  from drop_exhausted_frame [OF d sh] p show ?thesis by auto
qed

lemma monitor_frame:
  "share_ok (receive s) = share_ok s" "pool (receive s) = pool s"
  "objs (receive s) = objs s" "next_ref (receive s) = next_ref s"
  by (auto simp: receive_def share_ok_def wf_slice_def pool_def elems_def split: list.splits)

lemma checkPack_tick_frame:
  "checkPack_tick cfg now s = Inr s' \<Longrightarrow>
     share_ok s' = share_ok s \<and> pool s' = pool s \<and> objs s' = objs s \<and> next_ref s' = next_ref s"
  by (auto simp: checkPack_tick_def share_ok_def wf_slice_def pool_def elems_def
      split: sum.splits prod.splits)

lemma confirm_tick_frame:
  "share_ok s \<Longrightarrow>
     share_ok (confirm_tick clock s) \<and> pool (confirm_tick clock s) = pool s \<and>
     objs (confirm_tick clock s) = objs s \<and> next_ref (confirm_tick clock s) = next_ref s"
  unfolding confirm_tick_def by (rule confirm_sweep_frame)

text \<open>
  In every run, whatever the order of the worker's rounds and the monitor's steps, and
  in every mode, the worker's pool gains no entry: what the monitor appends on a sweep
  never becomes visible through the worker's \<^verbatim>\<open>balanceList\<close>.
\<close>

theorem worker_pool_never_grows:
  "share_ok s \<Longrightarrow> run cfg threadNum acts s = Inr s' \<Longrightarrow>
     share_ok s' \<and> set (pool s') \<subseteq> set (pool s)"
proof (induction acts arbitrary: s)
  case Nil
  then show ?case by simp
next
  case (Cons a acts)
  from Cons.prems(2) obtain s1 where st: "step cfg threadNum a s = Inr s1"
    and r: "run cfg threadNum acts s1 = Inr s'"
    by (auto split: sum.splits)
  have "share_ok s1 \<and> set (pool s1) \<subseteq> set (pool s)"
  proof (cases a)
    case (WorkerPass envs)
    with st worker_pass_frame [OF _ Cons.prems(1)] show ?thesis by simp
  next
    case Receive
    with st Cons.prems(1) monitor_frame [of s] show ?thesis by auto
  next
    case (CheckPack now)
    with st Cons.prems(1) checkPack_tick_frame [of cfg now s s1] show ?thesis by simp
  next
    case (Confirm clock)
    with st confirm_tick_frame [OF Cons.prems(1), of clock] show ?thesis by auto
  qed
  with Cons.IH [OF _ r] show ?case by blast
qed

lemma StartSend_share_ok: "share_ok (StartSend heap fresh part)"
  by (simp add: share_ok_def wf_slice_def StartSend_def)

lemma getTx_panics: "getTx cfg a h = Inl p \<Longrightarrow> p \<noteq> IntnInvalidArgument"
  by (cases "GetTransactionByHash cfg (the (map_of (clientList cfg) (Shard cfg a))) h")
     (auto simp: getTx_def getClient_def split: option.splits)

lemma classify_loop_panics:
  "classify_loop cfg heap rs inc pend = Inl p \<Longrightarrow> p \<noteq> IntnInvalidArgument"
proof (induction rs arbitrary: inc pend)
  case Nil
  then show ?case by simp
next
  case (Cons r rs)
  show ?case
  proof (cases "heap r")
    case None
    with Cons.prems show ?thesis by simp
  next
    case (Some b)
    show ?thesis
    proof (cases "tx b")
      case None
      with Cons.prems Some Cons.IH [of inc pend] show ?thesis by simp
    next
      case h: (Some h)
      show ?thesis
      proof (cases "getTx cfg (address b) h")
        case (Inl q)
        with Cons.prems Some h getTx_panics [OF Inl] show ?thesis by simp
      next
        case (Inr result)
        with Cons.prems Some h
          Cons.IH [of "inc @ [r]" pend] Cons.IH [of inc "pend @ [r]"] Cons.IH [of inc pend]
        show ?thesis by (simp split: if_splits)
      qed
    qed
  qed
qed

lemma step_sound:
  assumes "mode cfg = 1" and "clientList cfg \<noteq> []" and "pool_sound s" and "share_ok s"
  shows "step cfg threadNum a s \<noteq> Inl IntnInvalidArgument \<and>
         (\<forall>s1. step cfg threadNum a s = Inr s1 \<longrightarrow> pool_sound s1 \<and> share_ok s1 \<and> pool s1 = pool s)"
proof (cases a)
  case (WorkerPass envs)
  from worker_pass_sound [OF assms(1,2,3), of threadNum envs] obtain s1 where
    w: "worker_pass cfg threadNum envs s = Inr s1" "pool_sound s1" "pool s1 = pool s" by blast
  from worker_pass_frame [OF w(1) assms(4)] w WorkerPass show ?thesis by simp
next
  case Receive
  have "pool_sound (receive s)"
    using assms(3) monitor_frame(2,3,4) [of s] by (simp add: pool_sound_def)
  with Receive assms(4) monitor_frame(1,2) [of s] show ?thesis by simp
next
  case (CheckPack now)
  show ?thesis
  proof (cases "checkPack_tick cfg now s")
    case (Inl p)
    then have "classify_loop cfg (objs s) (toPackedBalanceList s) [] [] = Inl p"
      by (simp add: checkPack_tick_def getIncludedAndPendingBalance_def split: sum.splits prod.splits)
    from classify_loop_panics [OF this] Inl CheckPack show ?thesis by simp
  next
    case (Inr s1)
    note fr = checkPack_tick_frame [OF Inr]
    have "pool_sound s1" using assms(3) fr by (simp add: pool_sound_def)
    with fr assms(4) Inr CheckPack show ?thesis by simp
  qed
next
  case (Confirm clock)
  note fr = confirm_tick_frame [OF assms(4), of clock]
  have "pool_sound (confirm_tick clock s)" using assms(3) fr by (simp add: pool_sound_def)
  with fr Confirm show ?thesis by simp
qed

lemma run_sound:
  assumes "mode cfg = 1" and "clientList cfg \<noteq> []"
  shows "pool_sound s \<Longrightarrow> share_ok s \<Longrightarrow>
         run cfg threadNum acts s \<noteq> Inl IntnInvalidArgument \<and>
         (\<forall>s'. run cfg threadNum acts s = Inr s' \<longrightarrow> pool_sound s' \<and> pool s' = pool s)"
proof (induction acts arbitrary: s)
  case Nil
  then show ?case by simp
next
  case (Cons a acts)
  note st = step_sound [OF assms Cons.prems, of threadNum a]
  show ?case
  proof (cases "step cfg threadNum a s")
    case (Inl p)
    with st show ?thesis by simp
  next
    case (Inr s1)
    with st have "pool_sound s1" "share_ok s1" "pool s1 = pool s" by simp_all
    with Cons.IH [of s1] Inr show ?thesis by simp
  qed
qed

text \<open>
  C10. In mode 1, with a client to send to and a pool whose entries start with positive
  amounts (as \<^verbatim>\<open>initAccount\<close> leaves them): any number of rounds of the worker loop runs
  without a panic, so \<^verbatim>\<open>rand.Intn\<close>, which panics on an amount that is not positive, is
  never called with one; after the rounds every entry of the pool still has a positive
  amount, and no entry has left the pool. For an entry with a positive amount every
  call of \<^verbatim>\<open>send\<close> returns, leaves an amount of at least 1, and draws strictly less than
  the amount before the call. The same holds when the monitor's steps come between the
  worker's rounds in any order.
\<close>

theorem mode1_pool_stays_positive:
  assumes "mode cfg = 1" and "clientList cfg \<noteq> []" and "pool_sound s"
  shows "(\<exists>s'. worker_passes cfg threadNum envss 0 n s = Inr s' \<and> pool_sound s' \<and> pool s' = pool s) \<and>
         (\<forall>r \<in> set (pool s). \<forall>b. objs s r = Some b \<longrightarrow>
            0 <s amount b \<and>
            (\<forall>e. \<exists>nb b' t. send cfg e b = Inr (nb, b', t) \<and> 1 \<le> sint (amount b') \<and>
                    sint (amount nb) < sint (amount b))) \<and>
         (\<forall>b e. \<not> 0 <s amount b \<longrightarrow> send cfg e b = Inl IntnInvalidArgument) \<and>
         (share_ok s \<longrightarrow>
            run cfg threadNum acts s \<noteq> Inl IntnInvalidArgument \<and>
            (\<forall>s'. run cfg threadNum acts s = Inr s' \<longrightarrow> pool_sound s' \<and> pool s' = pool s))"
proof -
  have a: "\<exists>s'. worker_passes cfg threadNum envss 0 n s = Inr s' \<and> pool_sound s' \<and> pool s' = pool s"
    using worker_passes_sound [OF assms] by blast
  have b: "\<forall>r \<in> set (pool s). \<forall>b. objs s r = Some b \<longrightarrow>
            0 <s amount b \<and>
            (\<forall>e. \<exists>nb b' t. send cfg e b = Inr (nb, b', t) \<and> 1 \<le> sint (amount b') \<and>
                    sint (amount nb) < sint (amount b))"
  proof (intro ballI allI impI)
    fix r b assume r: "r \<in> set (pool s)" and o: "objs s r = Some b"
    from assms(3) r have "positive (objs s) r" by (simp add: pool_sound_def list_all_iff)
    with o have p: "0 <s amount b" by (simp add: positive_def)
    with send_mode1_keeps_positive [OF assms(1,2) p]
    show "0 <s amount b \<and>
            (\<forall>e. \<exists>nb b' t. send cfg e b = Inr (nb, b', t) \<and> 1 \<le> sint (amount b') \<and>
                    sint (amount nb) < sint (amount b))" by blast
  qed
  have c: "\<forall>b e. \<not> 0 <s amount b \<longrightarrow> send cfg e b = Inl IntnInvalidArgument"
    using send_mode1_faults [OF assms(1)] by blast
  have d: "share_ok s \<longrightarrow>
            run cfg threadNum acts s \<noteq> Inl IntnInvalidArgument \<and>
            (\<forall>s'. run cfg threadNum acts s = Inr s' \<longrightarrow> pool_sound s' \<and> pool s' = pool s)"
    using run_sound [OF assms(1,2,3)] by blast
  from a b c d show ?thesis by blast
qed

lemmas run_defs = worker_pass_def loopSendMode1_2_start_def StartSend_def heap1_def cfg1_def env_ok_def
  entry100_def elems_def send_loop.simps loop_body_def send_def send_amount_def Intn_def getRandClient_def
  GenerateTx_def SendTx_def throttle_worker12_def throttle_def start_worker12_def limiters0_def
  drop_exhausted_def make_slice_def append_slice_def Sub_def Second_def maxDuration_def minDuration_def
  wrap64_def Let_def pool_def amount_at_def word_sless_alt

lemmas monitor_defs = receive_def checkPack_tick_def getIncludedAndPendingBalance_def
  getTx_def getClient_def confirm_tick_def confirmTime_def Minute_def

theorem mode1_pool_stays_positive_witness:
  "mode cfg1 = 1 \<and> clientList cfg1 \<noteq> [] \<and>
   pool_sound (StartSend heap1 2 (initAccount_result heap1 [1])) \<and>
   observe (worker_passes cfg1 0 (\<lambda>j i. env_ok) 0 2 (StartSend heap1 2 (initAccount_result heap1 [1])))
     = Some ([1], [Some 40], [1], [], [], [2, 3])"
proof -
  have m: "mode cfg1 = 1" and c: "clientList cfg1 \<noteq> []" by (simp_all add: cfg1_def)
  have i: "initAccount_result heap1 [1] = [1]"
    by (simp add: initAccount_result_def positive_def heap1_def entry100_def word_sless_alt)
  have p: "pool_sound (StartSend heap1 2 (initAccount_result heap1 [1]))"
    by (rule StartSend_pool_sound) simp
  have o: "observe (worker_passes cfg1 0 (\<lambda>j i. env_ok) 0 2 (StartSend heap1 2 [1]))
             = Some ([1], [Some 40], [1], [], [], [2, 3])"
    by (simp add: observe_def numeral_2_eq_2 run_defs)
  from mode1_pool_stays_positive [OF m c p, of 0 "\<lambda>j i. env_ok" 2 "[]"] m c p o i
  show ?thesis by simp
qed

text \<open>
  C1, evaluated on the code. The beneficiary of the first send (reference 2) is
  reported in a block at 30 s and its bucket is swept at 180 s, after the cool-down of
  two minutes. The sweep appends it to the monitor's own \<^verbatim>\<open>balanceList\<close>, which then
  holds the references 1 and 2, and deletes the bucket. The worker's \<^verbatim>\<open>balanceList\<close> is
  another variable: its pool is still the reference 1 alone, and its next pass sends
  from that entry only. The released amount does not reappear in the pool the worker
  draws from.
\<close>

theorem released_entry_misses_worker_pool:
  "observe (run cfg1 0 actions_included state_started)
     = Some ([1], [Some 70], [1], [], [(30000000000, [2])], []) \<and>
   observe (run cfg1 0 actions_released state_started)
     = Some ([1], [Some 70], [1, 2], [], [], []) \<and>
   observe (run cfg1 0 actions_next_pass state_started)
     = Some ([1], [Some 40], [1, 2], [], [], [3])"
proof -
  have "observe (run cfg1 0 actions_included state_started)
          = Some ([1], [Some 70], [1], [], [(30000000000, [2])], [])"
    by (simp add: observe_def actions_included_def state_started_def run_defs monitor_defs)
  moreover have "observe (run cfg1 0 actions_released state_started)
          = Some ([1], [Some 70], [1, 2], [], [], [])"
    by (simp add: observe_def actions_released_def actions_included_def state_started_def
        run_defs monitor_defs)
  moreover have "observe (run cfg1 0 actions_next_pass state_started)
          = Some ([1], [Some 40], [1, 2], [], [], [3])"
    by (simp add: observe_def actions_next_pass_def actions_released_def actions_included_def
        state_started_def run_defs monitor_defs)
  ultimately show ?thesis by simp
qed

theorem worker_pool_never_grows_witness:
  "share_ok state_started \<and> pool state_started = [1] \<and>
   observe (run cfg1 0 actions_released state_started) = Some ([1], [Some 70], [1, 2], [], [], [])"
proof -
  have sh: "share_ok state_started"
    by (simp add: state_started_def loopSendMode1_2_start_def share_ok_def wf_slice_def StartSend_def)
  have p: "pool state_started = [1]"
    by (simp add: state_started_def loopSendMode1_2_start_def pool_def elems_def StartSend_def)
  have o: "observe (run cfg1 0 actions_released state_started)
             = Some ([1], [Some 70], [1, 2], [], [], [])"
    by (simp add: observe_def actions_released_def actions_included_def state_started_def
        run_defs monitor_defs)
  then obtain s' where r: "run cfg1 0 actions_released state_started = Inr s'"
    by (cases "run cfg1 0 actions_released state_started") (simp_all add: observe_def)
  from worker_pool_never_grows [OF sh r] sh p o show ?thesis by simp
qed

section \<open>Nonces of the transactions of an entry\<close>

lemma sends_nonces:
  "sends cfg es b = Inr (nbs, ts, b') \<Longrightarrow>
     map tx_nonce ts = map (\<lambda>i. nonce b + of_nat i) [0..<length ts] \<and>
     nonce b' = nonce b + of_nat (length ts) \<and> length ts \<le> length es"
proof (induction es arbitrary: b nbs ts b')
  case Nil
  then show ?case by simp
next
  case (Cons e es)
  from Cons.prems obtain nb b1 t nbs1 ts1 where
    s: "send cfg e b = Inr (nb, b1, t)" and
    r: "sends cfg es b1 = Inr (nbs1, ts1, b')" and
    ts: "ts = (case t of None \<Rightarrow> [] | Some x \<Rightarrow> [x]) @ ts1"
    by (auto split: sum.splits prod.splits)
  note ih = Cons.IH [OF r]
  show ?case
  proof (cases t)
    case None
    with s have "b1 = b"
      by (auto simp: send_def Let_def GenerateTx_def SendTx_def
          split: sum.splits option.splits if_splits)
    with ih ts None show ?thesis by simp
  next
    case (Some x)
    with s have x: "tx_nonce x = nonce b" "nonce b1 = nonce b + 1"
      by (auto simp: send_def Let_def GenerateTx_def SendTx_def
          split: sum.splits option.splits if_splits)
    have "map (\<lambda>i. nonce b + of_nat i) [0..<Suc (length ts1)] =
          nonce b # map (\<lambda>i. nonce b + 1 + of_nat i) [0..<length ts1]"
      by (simp add: upt_conv_Cons map_Suc_upt [symmetric] del: upt_Suc add: add.assoc)
    with ih ts Some x show ?thesis by (simp add: add.assoc)
  qed
qed

lemma unat_nonce_add:
  "unat (n :: 64 word) + i < 2 ^ 64 \<Longrightarrow> unat (n + of_nat i) = unat n + i"
  by (simp add: unat_word_ariths unat_of_nat)

lemma send_source_after:
  "send cfg e b = Inr (nb, b', t) \<Longrightarrow>
     privateKey b' = privateKey b \<and> (t = None \<longrightarrow> b' = b) \<and>
     (\<forall>x. t = Some x \<longrightarrow> nonce b' = nonce b + 1 \<and> handed_over cfg e b = Some x)"
  by (auto simp: send_def handed_over_def Let_def GenerateTx_def SendTx_def
      split: sum.splits option.splits if_splits)

lemma handed_over_fields:
  "handed_over cfg e b = Some x \<Longrightarrow> tx_nonce x = nonce b \<and> tx_from x = privateKey b"
  by (auto simp: handed_over_def GenerateTx_def split: sum.splits if_splits)

lemma accepted_among_submitted:
  "sends cfg es b = Inr (nbs, ts, b') \<Longrightarrow>
     set ts \<subseteq> set (submitted cfg es b) \<and>
     (\<forall>x \<in> set (submitted cfg es b). tx_from x = privateKey b)"
proof (induction es arbitrary: b nbs ts b')
  case Nil
  then show ?case by simp
next
  case (Cons e es)
  from Cons.prems obtain nb b1 t nbs1 ts1 where
    s: "send cfg e b = Inr (nb, b1, t)" and
    r: "sends cfg es b1 = Inr (nbs1, ts1, b')" and
    ts: "ts = (case t of None \<Rightarrow> [] | Some x \<Rightarrow> [x]) @ ts1"
    by (auto split: sum.splits prod.splits)
  note ih = Cons.IH [OF r]
  note a = send_source_after [OF s]
  have h: "\<forall>x. handed_over cfg e b = Some x \<longrightarrow> tx_from x = privateKey b"
    using handed_over_fields by blast
  from a have k: "privateKey b1 = privateKey b" by simp
  have sub: "submitted cfg (e # es) b =
               (case handed_over cfg e b of None \<Rightarrow> [] | Some x \<Rightarrow> [x]) @ submitted cfg es b1"
    using s by simp
  have fr: "\<forall>x \<in> set (submitted cfg (e # es) b). tx_from x = privateKey b"
    unfolding sub using ih h k by (cases "handed_over cfg e b") simp_all
  have "set ts \<subseteq> set (submitted cfg (e # es) b)"
  proof (cases t)
    case None
    with ts ih show ?thesis unfolding sub by auto
  next
    case (Some y)
    with a have "handed_over cfg e b = Some y" by simp
    with ts Some ih show ?thesis unfolding sub by auto
  qed
  with fr show ?case by blast
qed

lemma submitted_sorted:
  "sends cfg es b = Inr (nbs, ts, b') \<Longrightarrow> unat (nonce b) + length ts < 2 ^ 64 \<Longrightarrow>
     sorted (map unat (submitted_nonces cfg es b)) \<and>
     (\<forall>x \<in> set (submitted cfg es b). unat (nonce b) \<le> unat (tx_nonce x))"
proof (induction es arbitrary: b nbs ts b')
  case Nil
  then show ?case by (simp add: submitted_nonces_def)
next
  case (Cons e es)
  from Cons.prems(1) obtain nb b1 t nbs1 ts1 where
    s: "send cfg e b = Inr (nb, b1, t)" and
    r: "sends cfg es b1 = Inr (nbs1, ts1, b')" and
    ts: "ts = (case t of None \<Rightarrow> [] | Some x \<Rightarrow> [x]) @ ts1"
    by (auto split: sum.splits prod.splits)
  note a = send_source_after [OF s]
  have h: "\<forall>x. handed_over cfg e b = Some x \<longrightarrow> tx_nonce x = nonce b"
    using handed_over_fields by blast
  have n1: "unat (nonce b) \<le> unat (nonce b1)" and w1: "unat (nonce b1) + length ts1 < 2 ^ 64"
  proof -
    show "unat (nonce b) \<le> unat (nonce b1)"
    proof (cases t)
      case None
      with a show ?thesis by simp
    next
      case (Some y)
      with a have "nonce b1 = nonce b + 1" by simp
      moreover have "unat (nonce b) < 2 ^ 64 - 1" using Cons.prems(2) ts Some by simp
      ultimately show ?thesis using unat_nonce_succ [of "nonce b"] by simp
    qed
    show "unat (nonce b1) + length ts1 < 2 ^ 64"
    proof (cases t)
      case None
      with a ts Cons.prems(2) show ?thesis by simp
    next
      case (Some y)
      with a have "nonce b1 = nonce b + 1" by simp
      moreover have "unat (nonce b) < 2 ^ 64 - 1" using Cons.prems(2) ts Some by simp
      ultimately have "unat (nonce b1) = unat (nonce b) + 1"
        using unat_nonce_succ [of "nonce b"] by simp
      with Cons.prems(2) ts Some show ?thesis by simp
    qed
  qed
  from Cons.IH [OF r w1] have
    ih1: "sorted (map unat (map tx_nonce (submitted cfg es b1)))" and
    ih2: "\<forall>x \<in> set (submitted cfg es b1). unat (nonce b1) \<le> unat (tx_nonce x)"
    by (simp_all add: submitted_nonces_def)
  from ih2 n1 have lo: "\<forall>x \<in> set (submitted cfg es b1). unat (nonce b) \<le> unat (tx_nonce x)"
    by fastforce
  show ?case
  proof (cases "handed_over cfg e b")
    case None
    with s ih1 lo show ?thesis by (simp add: submitted_nonces_def)
  next
    case (Some x)
    with h have "tx_nonce x = nonce b" by simp
    with Some s ih1 lo show ?thesis by (simp add: submitted_nonces_def)
  qed
qed

text \<open>
  C9, as the code has it. Only a successful submission (the ledger answers ok without
  an error) changes an entry's nonce, by one; a transaction that is rejected or errors
  leaves the nonce as it was, and the entry's next transaction is signed with the same
  nonce. So the \<open>i\<close>-th accepted transaction of an entry carries the entry's first nonce
  plus \<open>i\<close>, and as long as this 64-bit counter does not wrap (the first nonce plus the
  number of accepted transactions stays within \<open>2^64\<close>) the nonces of the entry's
  accepted transactions are strictly increasing and pairwise distinct. The accepted
  transactions are among those the entry handed to the ledger, all of which are signed
  with the entry's key; while the counter stays below \<open>2^64\<close> the nonces of all
  transactions handed over, accepted or not, never decrease.
\<close>

theorem nonces_strictly_increasing:
  assumes "sends cfg es b = Inr (nbs, ts, b')" and "unat (nonce b) + length ts \<le> 2 ^ 64"
  shows "accepted_nonces cfg es b = map (\<lambda>i. nonce b + of_nat i) [0..<length ts] \<and>
         nonce b' = nonce b + of_nat (length ts) \<and>
         sorted_wrt (<) (map unat (accepted_nonces cfg es b)) \<and>
         distinct (accepted_nonces cfg es b) \<and>
         set ts \<subseteq> set (submitted cfg es b) \<and>
         (\<forall>x \<in> set (submitted cfg es b). tx_from x = privateKey b) \<and>
         (unat (nonce b) + length ts < 2 ^ 64 \<longrightarrow> sorted (map unat (submitted_nonces cfg es b)))"
proof -
  note n = sends_nonces [OF assms(1)]
  have u: "accepted_nonces cfg es b = map (\<lambda>i. nonce b + of_nat i) [0..<length ts]"
    using assms(1) n by (simp add: accepted_nonces_def)
  have m: "map unat (accepted_nonces cfg es b) = map (\<lambda>i. unat (nonce b) + i) [0..<length ts]"
    unfolding u using assms(2) by (simp add: unat_nonce_add)
  have s: "sorted_wrt (<) (map unat (accepted_nonces cfg es b))"
    unfolding m by (simp add: sorted_wrt_map sorted_wrt_upt)
  have "distinct (map unat (accepted_nonces cfg es b))"
    using s by (simp add: strict_sorted_iff)
  then have d: "distinct (accepted_nonces cfg es b)" by (simp add: distinct_map)
  note k = accepted_among_submitted [OF assms(1)]
  have o: "unat (nonce b) + length ts < 2 ^ 64 \<longrightarrow> sorted (map unat (submitted_nonces cfg es b))"
    using submitted_sorted [OF assms(1)] by blast
  from u n s d k o show ?thesis by blast
qed

lemmas send_defs = send_def handed_over_def send_amount_def Intn_def getRandClient_def
  GenerateTx_def SendTx_def cfg1_def entry100_def env_ok_def env_rejected_def

theorem nonces_strictly_increasing_witness:
  "sends cfg1 [env_ok, env_rejected, env_ok] entry100 =
     Inr ([\<lparr>address = 12, privateKey = 22, amount = 30, shard = 1, nonce = 0, tx = Some 99, packed = False\<rparr>,
           \<lparr>address = 12, privateKey = 22, amount = 30, shard = 1, nonce = 0, tx = None, packed = False\<rparr>,
           \<lparr>address = 12, privateKey = 22, amount = 30, shard = 1, nonce = 0, tx = Some 99, packed = False\<rparr>],
          [\<lparr>tx_from = 21, tx_to = 12, tx_value = 3000000000, tx_price = 1, tx_nonce = 4, tx_hash = 99\<rparr>,
           \<lparr>tx_from = 21, tx_to = 12, tx_value = 3000000000, tx_price = 1, tx_nonce = 5, tx_hash = 99\<rparr>],
          \<lparr>address = 11, privateKey = 21, amount = 40, shard = 1, nonce = 6, tx = None, packed = False\<rparr>) \<and>
   accepted_nonces cfg1 [env_ok, env_rejected, env_ok] entry100 = [4, 5] \<and>
   submitted_nonces cfg1 [env_ok, env_rejected, env_ok] entry100 = [4, 5, 5] \<and>
   sorted_wrt (<) (map unat (accepted_nonces cfg1 [env_ok, env_rejected, env_ok] entry100)) \<and>
   sorted (map unat (submitted_nonces cfg1 [env_ok, env_rejected, env_ok] entry100))"
proof -
  have s: "sends cfg1 [env_ok, env_rejected, env_ok] entry100 =
     Inr ([\<lparr>address = 12, privateKey = 22, amount = 30, shard = 1, nonce = 0, tx = Some 99, packed = False\<rparr>,
           \<lparr>address = 12, privateKey = 22, amount = 30, shard = 1, nonce = 0, tx = None, packed = False\<rparr>,
           \<lparr>address = 12, privateKey = 22, amount = 30, shard = 1, nonce = 0, tx = Some 99, packed = False\<rparr>],
          [\<lparr>tx_from = 21, tx_to = 12, tx_value = 3000000000, tx_price = 1, tx_nonce = 4, tx_hash = 99\<rparr>,
           \<lparr>tx_from = 21, tx_to = 12, tx_value = 3000000000, tx_price = 1, tx_nonce = 5, tx_hash = 99\<rparr>],
          \<lparr>address = 11, privateKey = 21, amount = 40, shard = 1, nonce = 6, tx = None, packed = False\<rparr>)"
    by (simp add: send_defs)
  have h: "unat (nonce entry100) + length [\<lparr>tx_from = 21, tx_to = 12, tx_value = 3000000000, tx_price = 1, tx_nonce = (4::uint64), tx_hash = 99\<rparr>,
           \<lparr>tx_from = 21, tx_to = 12, tx_value = 3000000000, tx_price = 1, tx_nonce = 5, tx_hash = 99\<rparr>] \<le> 2 ^ 64"
    by (simp add: entry100_def)
  have u: "accepted_nonces cfg1 [env_ok, env_rejected, env_ok] entry100 = [4, 5]"
    using s by (simp add: accepted_nonces_def)
  have v: "submitted_nonces cfg1 [env_ok, env_rejected, env_ok] entry100 = [4, 5, 5]"
    by (simp add: submitted_nonces_def send_defs)
  from nonces_strictly_increasing [OF s h] s u v show ?thesis by simp
qed

text \<open>
  The claim as stated fails in three ways. A transaction the ledger rejects leaves the
  nonce unchanged, so the entry's next transaction is submitted with the same nonce:
  two submitted transactions of one entry share nonce 4. An entry whose nonce is the
  largest \<^verbatim>\<open>uint64\<close> submits with that nonce, \<^verbatim>\<open>b.nonce++\<close> wraps to 0, and the next
  accepted transaction carries nonce 0: the sequence is not increasing. And two entries
  made for one address each count their own nonce: with a ledger that answers ok to
  both, two accepted transactions from the same address share nonce 4.
\<close>

theorem nonces_repeat_counterexample:
  "submitted_nonces cfg1 [env_rejected, env_ok] entry100 = [4, 4] \<and>
   accepted_nonces cfg1 [env_ok, env_ok] entry_last_nonce = [18446744073709551615, 0] \<and>
   \<not> sorted_wrt (<) (map unat (accepted_nonces cfg1 [env_ok, env_ok] entry_last_nonce)) \<and>
   pool state_twins = [1, 2] \<and>
   accepted_in (worker_pass cfg1 0 envs_twins state_twins) =
     [\<lparr>tx_from = 21, tx_to = 12, tx_value = 3000000000, tx_price = 1, tx_nonce = 4, tx_hash = 99\<rparr>,
      \<lparr>tx_from = 21, tx_to = 13, tx_value = 3000000000, tx_price = 1, tx_nonce = 4, tx_hash = 98\<rparr>]"
proof -
  have a: "submitted_nonces cfg1 [env_rejected, env_ok] entry100 = [4, 4]"
    by (simp add: submitted_nonces_def send_defs)
  have b: "accepted_nonces cfg1 [env_ok, env_ok] entry_last_nonce = [18446744073709551615, 0]"
    by (simp add: accepted_nonces_def entry_last_nonce_def send_defs)
  have i: "initAccount_result heap_twins [1, 2] = [1, 2]"
    by (simp add: initAccount_result_def positive_def heap_twins_def entry100_def word_sless_alt)
  have c: "pool state_twins = [1, 2]"
    unfolding state_twins_def i
    by (simp add: loopSendMode1_2_start_def StartSend_def pool_def elems_def)
  have d: "accepted_in (worker_pass cfg1 0 envs_twins state_twins) =
     [\<lparr>tx_from = 21, tx_to = 12, tx_value = 3000000000, tx_price = 1, tx_nonce = 4, tx_hash = 99\<rparr>,
      \<lparr>tx_from = 21, tx_to = 13, tx_value = 3000000000, tx_price = 1, tx_nonce = 4, tx_hash = 98\<rparr>]"
    unfolding state_twins_def i
    by (simp add: accepted_in_def envs_twins_def heap_twins_def run_defs)
  from a b c d show ?thesis by simp
qed

end
